theory Spec2Isabelle
  imports Complex_Main
begin

section \<open>The bounded-concurrency job queue of \<^verbatim>\<open>concurrent-queue.ts\<close>\<close>

text \<open>
  The class \<^verbatim>\<open>ConcurrentQueue\<close> is embedded as a record of its fields together with
  the closure variables of every \<^verbatim>\<open>process\<close> call, the listeners the calls register and
  the promises that are still pending.  Every method, callback and listener of the source
  is a function from state to state; the host (the event loop, the timers, the executors,
  the callers) is a list of actions, each running one callback to completion, as a
  single-threaded event loop does.

  What the model leaves to the host, and how:
  \<^item> \<^verbatim>\<open>nextId\<close> (time stamp plus random suffix, documented as unique) is the id argument of
    \<^verbatim>\<open>process\<close>; a trace is valid only when each id it submits is new;
  \<^item> the executor is opaque and returns a promise, as its type says: calling it is
    recorded in \<open>calls\<close>, and its promise settles in a later action, once;
  \<^item> a timer fires in a later action, once, and only while it has not been cleared;
  \<^item> observers of the emitter and the logger neither throw nor call back into the queue:
    an emission appends to \<open>events\<close> and runs the listeners the queue itself registered;
    log lines are not modelled;
  \<^item> \<^verbatim>\<open>concurrency\<close> is an integer and time-outs are rationals (JavaScript numbers
    otherwise).
\<close>

subsection \<open>Data\<close>

type_synonym job_id = string

text \<open>\<^verbatim>\<open>ConcurrentJobQueueStatus = 'pending' | 'processed' | 'aborted'\<close>\<close>

datatype status = Pending | Processed | Aborted

text \<open>The reason of a \<^verbatim>\<open>job-cancelled\<close> event: \<^verbatim>\<open>'abort' | 'timeout'\<close>.\<close>

datatype reason = ReasonAbort | ReasonTimeout

fun reason_text :: "reason \<Rightarrow> string" where
  "reason_text ReasonAbort = ''abort''"
| "reason_text ReasonTimeout = ''timeout''"

text \<open>
  A value a promise is rejected with (type \<^verbatim>\<open>unknown\<close> in the source): an \<^verbatim>\<open>Error\<close> with
  its message, another value given by what \<^verbatim>\<open>String(v)\<close> returns, or another value on
  which \<^verbatim>\<open>String(v)\<close> throws a \<^verbatim>\<open>TypeError\<close> (an object without \<^verbatim>\<open>toString\<close> and
  \<^verbatim>\<open>valueOf\<close>, such as \<^verbatim>\<open>Object.create(null)\<close>).
\<close>

datatype jsval = ErrorObj string | Printable string | Unprintable

datatype 'o settlement = Fulfilled 'o | Rejected jsval

text \<open>The events of \<^verbatim>\<open>ConcurrentQueueEvents\<close>, with their arguments.\<close>

datatype ('i, 'o) event =
    JobAdded job_id 'i nat
  | JobProcessed job_id 'i "'o settlement" nat
  | JobCancelled job_id 'i reason nat
  | AbortJobRequested job_id

text \<open>
  The closure of one \<^verbatim>\<open>process\<close> call: \<^verbatim>\<open>data\<close>, \<^verbatim>\<open>status\<close>, whether
  \<^verbatim>\<open>jobAbort.signal.aborted\<close>, whether the timer of \<^verbatim>\<open>timeout\<close> is still to fire, whether
  \<^verbatim>\<open>handleAbortEvent\<close> is registered for \<^verbatim>\<open>abort-job\<close>, whether \<^verbatim>\<open>abort\<close> is
  registered on the caller's \<^verbatim>\<open>signal\<close>, and the state of the promise returned.
\<close>

record ('i, 'o) job =
  data :: 'i
  status :: status
  jobAbort_aborted :: bool
  timeout :: bool
  on_abort_job :: bool
  on_signal :: bool
  promise :: "'o settlement option"

text \<open>
  One \<^verbatim>\<open>waitForJob\<close> call: its \<^verbatim>\<open>jobId\<close>, whether \<^verbatim>\<open>listener\<close> is registered
  for \<^verbatim>\<open>job-processed\<close> and \<^verbatim>\<open>job-cancelled\<close>, whether its timer is still to fire, and
  the state of the promise returned.
\<close>

record waiter =
  w_jobId :: job_id
  w_listening :: bool
  w_timeout :: bool
  w_promise :: "unit settlement option"

text \<open>
  The queue.  \<open>queueAbort\<close> is the listener list of the current
  \<^verbatim>\<open>this.queueAbort.signal\<close> (each listener the \<^verbatim>\<open>abort\<close> of one job, named by its id);
  \<open>calls\<close> lists the invocations of \<^verbatim>\<open>jobExecutor\<close> in order; \<open>executing\<close> the
  jobs whose executor promise is pending; \<open>finishing\<close> the jobs whose \<^verbatim>\<open>executeJob\<close>
  promise is resolved and whose \<^verbatim>\<open>then\<close> callback in \<^verbatim>\<open>run\<close> has not run yet;
  \<open>unhandled\<close> the rejections no handler took.
\<close>

record ('i, 'o) queue_state =
  concurrency :: int
  queue :: "job_id list"
  processingJobs :: int
  queueAbort :: "job_id list"
  jobStatus :: "job_id \<rightharpoonup> bool"
  events :: "('i, 'o) event list"
  jobs :: "job_id \<rightharpoonup> ('i, 'o) job"
  calls :: "job_id list"
  executing :: "job_id list"
  finishing :: "job_id list"
  unhandled :: "jsval list"
  waiters :: "waiter list"

text \<open>The constructor.\<close>

definition init :: "int \<Rightarrow> ('i, 'o) queue_state" where
  "init k = \<lparr>concurrency = k, queue = [], processingJobs = 0, queueAbort = [],
     jobStatus = Map.empty, events = [], jobs = Map.empty, calls = [], executing = [],
     finishing = [], unhandled = [], waiters = []\<rparr>"

subsection \<open>The callbacks of a job\<close>

text \<open>An assignment to closure variables of job \<open>jid\<close>.\<close>

definition upd_job ::
  "job_id \<Rightarrow> (('i, 'o) job \<Rightarrow> ('i, 'o) job) \<Rightarrow> ('i, 'o) queue_state \<Rightarrow> ('i, 'o) queue_state" where
  "upd_job jid f s = s\<lparr>jobs := (jobs s)(jid := map_option f (jobs s jid))\<rparr>"

text \<open>A promise takes the first settlement only.\<close>

definition settle :: "'a settlement \<Rightarrow> 'a settlement option \<Rightarrow> 'a settlement option" where
  "settle r p = (case p of None \<Rightarrow> Some r | Some r' \<Rightarrow> Some r')"

text \<open>\<^verbatim>\<open>cleanup\<close> of \<^verbatim>\<open>process\<close>.\<close>

definition cleanup :: "job_id \<Rightarrow> ('i, 'o) queue_state \<Rightarrow> ('i, 'o) queue_state" where
  "cleanup jid s =
     upd_job jid (\<lambda>j. j\<lparr>on_abort_job := False, on_signal := False, timeout := False\<rparr>)
       (s\<lparr>jobStatus := (jobStatus s)(jid := None),
          queueAbort := removeAll jid (queueAbort s)\<rparr>)"

text \<open>
  \<^verbatim>\<open>listener\<close> of \<^verbatim>\<open>waitForJob\<close>, called with the job of a \<^verbatim>\<open>job-processed\<close> or
  \<^verbatim>\<open>job-cancelled\<close> event.
\<close>

definition listener :: "job_id \<Rightarrow> waiter \<Rightarrow> waiter" where
  "listener jid w =
     (if w_listening w \<and> jid = w_jobId w
      then w\<lparr>w_listening := False, w_timeout := False,
             w_promise := settle (Fulfilled ()) (w_promise w)\<rparr>
      else w)"

text \<open>Emitting \<^verbatim>\<open>job-processed\<close> or \<^verbatim>\<open>job-cancelled\<close> for job \<open>jid\<close>.\<close>

definition emit_job :: "('i, 'o) event \<Rightarrow> job_id \<Rightarrow> ('i, 'o) queue_state \<Rightarrow> ('i, 'o) queue_state" where
  "emit_job e jid s = s\<lparr>events := events s @ [e], waiters := map (listener jid) (waiters s)\<rparr>"

text \<open>
  \<^verbatim>\<open>onTimeoutOrAbort\<close>.  Its last line calls \<^verbatim>\<open>abort(reason)\<close> when the signal is not
  aborted yet: that sets the flag and dispatches to \<^verbatim>\<open>onTimeoutOrAbort\<close> again, which
  returns at its first test since \<^verbatim>\<open>status\<close> is \<^verbatim>\<open>'aborted'\<close> by then.
\<close>

definition onTimeoutOrAbort :: "job_id \<Rightarrow> ('i, 'o) queue_state \<Rightarrow> ('i, 'o) queue_state" where
  "onTimeoutOrAbort jid s =
     (case jobs s jid of
        None \<Rightarrow> s
      | Some j \<Rightarrow>
          if status j \<noteq> Pending then s
          else
            let s1 = cleanup jid (upd_job jid (\<lambda>j. j\<lparr>status := Aborted\<rparr>) s);
                reason = (if jobAbort_aborted j then ReasonAbort else ReasonTimeout);
                s2 = upd_job jid
                  (\<lambda>j. j\<lparr>promise := settle (Rejected (ErrorObj (reason_text reason))) (promise j)\<rparr>) s1;
                s3 = emit_job (JobCancelled jid (data j) reason (length (queue s2))) jid s2
            in if \<not> jobAbort_aborted j
               then upd_job jid (\<lambda>j. j\<lparr>jobAbort_aborted := True\<rparr>) s3
               else s3)"

text \<open>
  \<^verbatim>\<open>abort\<close> of \<^verbatim>\<open>process\<close>, that is \<^verbatim>\<open>jobAbort.abort\<close>: nothing on a signal already
  aborted, otherwise the flag is set and the one listener, \<^verbatim>\<open>onTimeoutOrAbort\<close>, runs.
\<close>

definition jobAbort_abort :: "job_id \<Rightarrow> ('i, 'o) queue_state \<Rightarrow> ('i, 'o) queue_state" where
  "jobAbort_abort jid s =
     (case jobs s jid of
        None \<Rightarrow> s
      | Some j \<Rightarrow>
          if jobAbort_aborted j then s
          else onTimeoutOrAbort jid (upd_job jid (\<lambda>j. j\<lparr>jobAbort_aborted := True\<rparr>) s))"

text \<open>The \<^verbatim>\<open>resolve\<close> of a queue item.\<close>

definition job_resolve :: "job_id \<Rightarrow> 'o \<Rightarrow> ('i, 'o) queue_state \<Rightarrow> ('i, 'o) queue_state" where
  "job_resolve jid output s =
     (case jobs s jid of
        None \<Rightarrow> s
      | Some j \<Rightarrow>
          if status j \<noteq> Pending then s
          else
            let s1 = cleanup jid (upd_job jid (\<lambda>j. j\<lparr>status := Processed\<rparr>) s);
                s2 = upd_job jid (\<lambda>j. j\<lparr>promise := settle (Fulfilled output) (promise j)\<rparr>) s1
            in emit_job (JobProcessed jid (data j) (Fulfilled output) (length (queue s2))) jid s2)"

text \<open>
  \<^verbatim>\<open>err instanceof Error ? err : new Error(String(err) ?? 'Unknown error')\<close>:
  \<open>None\<close> when \<^verbatim>\<open>String(err)\<close> throws.  \<^verbatim>\<open>String\<close> never returns a nullish value,
  so the default after \<^verbatim>\<open>??\<close> is never taken.
\<close>

fun to_error :: "jsval \<Rightarrow> jsval option" where
  "to_error (ErrorObj m) = Some (ErrorObj m)"
| "to_error (Printable str) = Some (ErrorObj str)"
| "to_error Unprintable = None"

text \<open>The \<^verbatim>\<open>TypeError\<close> thrown by \<^verbatim>\<open>String\<close>.\<close>

definition type_error :: jsval where
  "type_error = ErrorObj ''Cannot convert object to primitive value''"

text \<open>
  The \<^verbatim>\<open>reject\<close> of a queue item: \<open>Inl\<close> is the exception it throws, \<open>Inr\<close> the state
  when it returns.
\<close>

definition job_reject ::
  "job_id \<Rightarrow> jsval \<Rightarrow> ('i, 'o) queue_state \<Rightarrow> jsval + ('i, 'o) queue_state" where
  "job_reject jid err s =
     (case jobs s jid of
        None \<Rightarrow> Inr s
      | Some j \<Rightarrow>
          if status j \<noteq> Pending then Inr s
          else
            (case to_error err of
               None \<Rightarrow> Inl type_error
             | Some error \<Rightarrow>
                 let s1 = cleanup jid (upd_job jid (\<lambda>j. j\<lparr>status := Processed\<rparr>) s);
                     s2 = upd_job jid (\<lambda>j. j\<lparr>promise := settle (Rejected error) (promise j)\<rparr>) s1
                 in Inr (emit_job (JobProcessed jid (data j) (Rejected error) (length (queue s2))) jid s2)))"

subsection \<open>Admission\<close>

text \<open>\<^verbatim>\<open>job.aborted()\<close>\<close>

definition aborted :: "job_id \<Rightarrow> ('i, 'o) queue_state \<Rightarrow> bool" where
  "aborted jid s = (case jobs s jid of None \<Rightarrow> False | Some j \<Rightarrow> status j = Aborted)"

text \<open>
  \<^verbatim>\<open>executeJob\<close> up to the call of the executor: the job index is set and the executor is
  invoked; its promise is pending from then on.
\<close>

definition executeJob :: "job_id \<Rightarrow> ('i, 'o) queue_state \<Rightarrow> ('i, 'o) queue_state" where
  "executeJob jid s =
     s\<lparr>jobStatus := (jobStatus s)(jid \<mapsto> True),
       calls := calls s @ [jid],
       executing := executing s @ [jid]\<rparr>"

lemma queue_executeJob [simp]: "queue (executeJob jid s) = queue s"
  by (simp add: executeJob_def)

text \<open>\<^verbatim>\<open>run\<close>: the loop over the backlog.\<close>

function run :: "('i, 'o) queue_state \<Rightarrow> ('i, 'o) queue_state" where
  "run s =
     (if processingJobs s < concurrency s then
        (case queue s of
           [] \<Rightarrow> s
         | job # rest \<Rightarrow>
             if aborted job (s\<lparr>queue := rest\<rparr>) then run (s\<lparr>queue := rest\<rparr>)
             else run (executeJob job (s\<lparr>queue := rest, processingJobs := processingJobs s + 1\<rparr>)))
      else s)"
  by pat_completeness auto
termination
  by (relation "measure (\<lambda>s. length (queue s))") auto

declare run.simps [simp del]

text \<open>
  The promise chain of \<^verbatim>\<open>executeJob\<close>, run when the executor's promise settles with
  \<open>r\<close>: \<^verbatim>\<open>.then(job.resolve)\<close>, \<^verbatim>\<open>.catch(job.reject)\<close>, and
  \<^verbatim>\<open>.finally(() => resolve())\<close>, each giving the settlement of the promise it returns.
  A rejection that leaves the chain has no handler.
\<close>

definition then_resolve ::
  "job_id \<Rightarrow> 'o settlement \<Rightarrow> ('i, 'o) queue_state \<Rightarrow> unit settlement \<times> ('i, 'o) queue_state" where
  "then_resolve jid r s =
     (case r of
        Fulfilled output \<Rightarrow> (Fulfilled (), job_resolve jid output s)
      | Rejected err \<Rightarrow> (Rejected err, s))"

definition catch_reject ::
  "job_id \<Rightarrow> unit settlement \<Rightarrow> ('i, 'o) queue_state \<Rightarrow> unit settlement \<times> ('i, 'o) queue_state" where
  "catch_reject jid r s =
     (case r of
        Fulfilled u \<Rightarrow> (Fulfilled u, s)
      | Rejected err \<Rightarrow>
          (case job_reject jid err s of
             Inr s' \<Rightarrow> (Fulfilled (), s')
           | Inl thrown \<Rightarrow> (Rejected thrown, s)))"

definition finally_resolve ::
  "job_id \<Rightarrow> unit settlement \<Rightarrow> ('i, 'o) queue_state \<Rightarrow> ('i, 'o) queue_state" where
  "finally_resolve jid r s =
     (let s1 = s\<lparr>executing := remove1 jid (executing s), finishing := finishing s @ [jid]\<rparr>
      in case r of
           Fulfilled u \<Rightarrow> s1
         | Rejected err \<Rightarrow> s1\<lparr>unhandled := unhandled s1 @ [err]\<rparr>)"

definition executor_settled ::
  "job_id \<Rightarrow> 'o settlement \<Rightarrow> ('i, 'o) queue_state \<Rightarrow> ('i, 'o) queue_state" where
  "executor_settled jid r s =
     (let (r1, s1) = then_resolve jid r s;
          (r2, s2) = catch_reject jid r1 s1
      in finally_resolve jid r2 s2)"

text \<open>The callback \<^verbatim>\<open>() => { this.processingJobs--; this.run(); }\<close> of \<^verbatim>\<open>run\<close>.\<close>

definition executeJob_then :: "job_id \<Rightarrow> ('i, 'o) queue_state \<Rightarrow> ('i, 'o) queue_state" where
  "executeJob_then jid s =
     run (s\<lparr>finishing := remove1 jid (finishing s), processingJobs := processingJobs s - 1\<rparr>)"

subsection \<open>The public methods\<close>

text \<open>
  \<^verbatim>\<open>process(data, queueTimeout, signal)\<close>, with the id \<^verbatim>\<open>nextId\<close> returned and whether a
  \<^verbatim>\<open>signal\<close> was given.  \<open>enqueue\<close> is the body up to the call of \<^verbatim>\<open>run\<close>: the
  listeners and the timer are set, the item is pushed, the job index is set and
  \<^verbatim>\<open>job-added\<close> is emitted.
\<close>

definition enqueue ::
  "job_id \<Rightarrow> 'i \<Rightarrow> rat \<Rightarrow> bool \<Rightarrow> ('i, 'o) queue_state \<Rightarrow> ('i, 'o) queue_state" where
  "enqueue jid d queueTimeout has_signal s =
     (let j = \<lparr>data = d, status = Pending, jobAbort_aborted = False,
               timeout = (queueTimeout > 0), on_abort_job = True, on_signal = has_signal,
               promise = None\<rparr>;
          s1 = s\<lparr>jobs := (jobs s)(jid \<mapsto> j), queueAbort := queueAbort s @ [jid]\<rparr>;
          s2 = s1\<lparr>queue := queue s1 @ [jid]\<rparr>;
          s3 = s2\<lparr>jobStatus := (jobStatus s2)(jid \<mapsto> False)\<rparr>
      in s3\<lparr>events := events s3 @ [JobAdded jid d (length (queue s3))]\<rparr>)"

definition process ::
  "job_id \<Rightarrow> 'i \<Rightarrow> rat \<Rightarrow> bool \<Rightarrow> ('i, 'o) queue_state \<Rightarrow> ('i, 'o) queue_state" where
  "process jid d queueTimeout has_signal s = run (enqueue jid d queueTimeout has_signal s)"

text \<open>
  \<^verbatim>\<open>abortJob(id)\<close>: the emission of \<^verbatim>\<open>abort-job\<close> runs \<^verbatim>\<open>handleAbortEvent\<close> of every
  job that still listens; the one whose id matches calls its \<^verbatim>\<open>abort\<close>.
\<close>

definition abortJob :: "job_id \<Rightarrow> ('i, 'o) queue_state \<Rightarrow> ('i, 'o) queue_state" where
  "abortJob jid s =
     (let s1 = s\<lparr>events := events s @ [AbortJobRequested jid]\<rparr>
      in case jobs s1 jid of
           None \<Rightarrow> s1
         | Some j \<Rightarrow> if on_abort_job j then jobAbort_abort jid s1 else s1)"

text \<open>
  \<^verbatim>\<open>abort()\<close>: \<^verbatim>\<open>this.queueAbort.abort('Queue shutdown')\<close> dispatches to the listeners
  registered when the dispatch starts, skipping one removed meanwhile; then a new
  controller, with no listener, replaces the old one.
\<close>

definition dispatch_queueAbort ::
  "job_id list \<Rightarrow> ('i, 'o) queue_state \<Rightarrow> ('i, 'o) queue_state" where
  "dispatch_queueAbort ls s =
     foldl (\<lambda>s jid. if jid \<in> set (queueAbort s) then jobAbort_abort jid s else s) s ls"

definition abort :: "('i, 'o) queue_state \<Rightarrow> ('i, 'o) queue_state" where
  "abort s = (dispatch_queueAbort (queueAbort s) s)\<lparr>queueAbort := []\<rparr>"

text \<open>The getters \<^verbatim>\<open>length\<close> and \<^verbatim>\<open>processing\<close>.\<close>

definition length_getter :: "('i, 'o) queue_state \<Rightarrow> nat" where
  "length_getter s = length (queue s)"

definition processing :: "('i, 'o) queue_state \<Rightarrow> int" where
  "processing s = processingJobs s"

text \<open>
  The job index \<^verbatim>\<open>jobStatus\<close> is a plain object, created by \<^verbatim>\<open>{}\<close>: assigning and
  deleting act on its own properties, which the map \<open>jobStatus\<close> holds, while reading
  \<^verbatim>\<open>this.jobStatus[jobId]\<close> falls back on the members of \<^verbatim>\<open>Object.prototype\<close>.
  Each of these is a function, or an object for \<^verbatim>\<open>__proto__\<close> (which assigning a
  boolean leaves as it is), so for these names the test
  \<^verbatim>\<open>typeof this.jobStatus[jobId] === 'undefined'\<close> of \<^verbatim>\<open>waitForJob\<close> is false whether or
  not a job has the name.
\<close>

definition object_prototype_keys :: "string list" where
  "object_prototype_keys =
     [''constructor'', ''__defineGetter__'', ''__defineSetter__'', ''hasOwnProperty'',
      ''__lookupGetter__'', ''__lookupSetter__'', ''isPrototypeOf'', ''propertyIsEnumerable'',
      ''toString'', ''valueOf'', ''__proto__'', ''toLocaleString'']"

definition jobStatus_undefined :: "('i, 'o) queue_state \<Rightarrow> job_id \<Rightarrow> bool" where
  "jobStatus_undefined s jobId \<longleftrightarrow>
     jobStatus s jobId = None \<and> jobId \<notin> set object_prototype_keys"

text \<open>
  \<^verbatim>\<open>waitForJob(jobId, timeoutMs)\<close>: the call is recorded with the promise it returns,
  already resolved when the test above is true.
\<close>

definition waitForJob :: "job_id \<Rightarrow> rat \<Rightarrow> ('i, 'o) queue_state \<Rightarrow> ('i, 'o) queue_state" where
  "waitForJob jobId timeoutMs s =
     (if jobStatus_undefined s jobId
      then s\<lparr>waiters := waiters s @
             [\<lparr>w_jobId = jobId, w_listening = False, w_timeout = False,
               w_promise = Some (Fulfilled ())\<rparr>]\<rparr>
      else s\<lparr>waiters := waiters s @
             [\<lparr>w_jobId = jobId, w_listening = True, w_timeout = (timeoutMs > 0),
               w_promise = None\<rparr>]\<rparr>)"

text \<open>The timer callback of \<^verbatim>\<open>waitForJob\<close>, for the call numbered \<open>n\<close>.\<close>

definition wait_timed_out :: "nat \<Rightarrow> ('i, 'o) queue_state \<Rightarrow> ('i, 'o) queue_state" where
  "wait_timed_out n s =
     s\<lparr>waiters := (waiters s)[n := (waiters s ! n)\<lparr>w_listening := False, w_timeout := False,
        w_promise := settle (Rejected (ErrorObj ''Timeout waiting for job'')) (w_promise (waiters s ! n))\<rparr>]\<rparr>"

subsection \<open>The host\<close>

text \<open>
  What can happen to a queue: a call of a public method, the caller's signal of a job
  aborting, the timer of a job firing, the executor's promise of a job settling, the
  \<^verbatim>\<open>then\<close> callback of \<^verbatim>\<open>run\<close> for a job, the timer of a \<^verbatim>\<open>waitForJob\<close> call firing.
\<close>

datatype ('i, 'o) action =
    Process job_id 'i rat bool
  | AbortJob job_id
  | AbortQueue
  | SignalAborts job_id
  | TimerFires job_id
  | ExecutorSettles job_id "'o settlement"
  | ExecuteJobThen job_id
  | WaitForJob job_id rat
  | WaitTimerFires nat

fun step :: "('i, 'o) action \<Rightarrow> ('i, 'o) queue_state \<Rightarrow> ('i, 'o) queue_state" where
  "step (Process jid d t sg) s = process jid d t sg s"
| "step (AbortJob jid) s = abortJob jid s"
| "step AbortQueue s = abort s"
| "step (SignalAborts jid) s =
     (case jobs s jid of
        None \<Rightarrow> s
      | Some j \<Rightarrow> if on_signal j then jobAbort_abort jid s else s)"
| "step (TimerFires jid) s = onTimeoutOrAbort jid (upd_job jid (\<lambda>j. j\<lparr>timeout := False\<rparr>) s)"
| "step (ExecutorSettles jid r) s = executor_settled jid r s"
| "step (ExecuteJobThen jid) s = executeJob_then jid s"
| "step (WaitForJob jid t) s = waitForJob jid t s"
| "step (WaitTimerFires n) s = wait_timed_out n s"

text \<open>
  When the host can take a step: an id is submitted once, a timer fires while it is set
  (and is no longer set once it fired), a promise settles while it is pending, a callback
  runs once it is queued.
\<close>

fun enabled :: "('i, 'o) action \<Rightarrow> ('i, 'o) queue_state \<Rightarrow> bool" where
  "enabled (Process jid d t sg) s = (jobs s jid = None)"
| "enabled (TimerFires jid) s = (case jobs s jid of None \<Rightarrow> False | Some j \<Rightarrow> timeout j)"
| "enabled (ExecutorSettles jid r) s = (jid \<in> set (executing s))"
| "enabled (ExecuteJobThen jid) s = (jid \<in> set (finishing s))"
| "enabled (WaitTimerFires n) s = (n < length (waiters s) \<and> w_timeout (waiters s ! n))"
| "enabled _ s = True"

fun exec :: "('i, 'o) action list \<Rightarrow> ('i, 'o) queue_state \<Rightarrow> ('i, 'o) queue_state" where
  "exec [] s = s"
| "exec (a # as) s = exec as (step a s)"

fun valid :: "('i, 'o) action list \<Rightarrow> ('i, 'o) queue_state \<Rightarrow> bool" where
  "valid [] s = True"
| "valid (a # as) s = (enabled a s \<and> valid as (step a s))"

subsection \<open>What each callback leaves unchanged\<close>

lemma upd_job_fields [simp]:
  "concurrency (upd_job jid f s) = concurrency s"
  "queue (upd_job jid f s) = queue s"
  "processingJobs (upd_job jid f s) = processingJobs s"
  "queueAbort (upd_job jid f s) = queueAbort s"
  "jobStatus (upd_job jid f s) = jobStatus s"
  "events (upd_job jid f s) = events s"
  "calls (upd_job jid f s) = calls s"
  "executing (upd_job jid f s) = executing s"
  "finishing (upd_job jid f s) = finishing s"
  "unhandled (upd_job jid f s) = unhandled s"
  "waiters (upd_job jid f s) = waiters s"
  by (simp_all add: upd_job_def)

lemma jobs_upd_job [simp]:
  "jobs (upd_job jid f s) i = (if i = jid then map_option f (jobs s jid) else jobs s i)"
  by (simp add: upd_job_def)

lemma cleanup_fields [simp]:
  "concurrency (cleanup jid s) = concurrency s"
  "queue (cleanup jid s) = queue s"
  "processingJobs (cleanup jid s) = processingJobs s"
  "queueAbort (cleanup jid s) = removeAll jid (queueAbort s)"
  "jobStatus (cleanup jid s) = (jobStatus s)(jid := None)"
  "events (cleanup jid s) = events s"
  "calls (cleanup jid s) = calls s"
  "executing (cleanup jid s) = executing s"
  "finishing (cleanup jid s) = finishing s"
  "unhandled (cleanup jid s) = unhandled s"
  "waiters (cleanup jid s) = waiters s"
  by (simp_all add: cleanup_def)

lemma jobs_cleanup [simp]:
  "jobs (cleanup jid s) i =
     (if i = jid
      then map_option (\<lambda>j. j\<lparr>on_abort_job := False, on_signal := False, timeout := False\<rparr>) (jobs s jid)
      else jobs s i)"
  by (simp add: cleanup_def)

lemma emit_job_fields [simp]:
  "concurrency (emit_job e jid s) = concurrency s"
  "queue (emit_job e jid s) = queue s"
  "processingJobs (emit_job e jid s) = processingJobs s"
  "queueAbort (emit_job e jid s) = queueAbort s"
  "jobStatus (emit_job e jid s) = jobStatus s"
  "events (emit_job e jid s) = events s @ [e]"
  "jobs (emit_job e jid s) = jobs s"
  "calls (emit_job e jid s) = calls s"
  "executing (emit_job e jid s) = executing s"
  "finishing (emit_job e jid s) = finishing s"
  "unhandled (emit_job e jid s) = unhandled s"
  "waiters (emit_job e jid s) = map (listener jid) (waiters s)"
  by (simp_all add: emit_job_def)

text \<open>The ids submitted, in order: those of the \<^verbatim>\<open>job-added\<close> events.\<close>

fun added_ids :: "('i, 'o) event list \<Rightarrow> job_id list" where
  "added_ids [] = []"
| "added_ids (JobAdded jid d n # es) = jid # added_ids es"
| "added_ids (e # es) = added_ids es"

definition submitted :: "('i, 'o) queue_state \<Rightarrow> job_id list" where
  "submitted s = added_ids (events s)"

lemma added_ids_append [simp]: "added_ids (es @ es') = added_ids es @ added_ids es'"
  by (induction es rule: added_ids.induct) simp_all

lemma dom_jobs_upd_job [simp]: "dom (jobs (upd_job jid f s)) = dom (jobs s)"
  by (auto simp add: upd_job_def dom_def)

lemma dom_jobs_cleanup [simp]: "dom (jobs (cleanup jid s)) = dom (jobs s)"
  by (simp add: cleanup_def)

text \<open>The part of the state that cancelling or settling a job leaves as it is.\<close>

definition sched ::
  "('i, 'o) queue_state \<Rightarrow>
     int \<times> job_id list \<times> int \<times> job_id list \<times> job_id list \<times> job_id list \<times> jsval list \<times> job_id list \<times> job_id set" where
  "sched s = (concurrency s, queue s, processingJobs s, calls s, executing s, finishing s,
     unhandled s, submitted s, dom (jobs s))"

lemma sched_upd_job [simp]: "sched (upd_job jid f s) = sched s"
  by (simp add: sched_def submitted_def)

lemma sched_onTimeoutOrAbort [simp]: "sched (onTimeoutOrAbort jid s) = sched s"
  by (simp add: sched_def submitted_def onTimeoutOrAbort_def Let_def split: option.splits)

lemma sched_jobAbort_abort [simp]: "sched (jobAbort_abort jid s) = sched s"
  by (simp add: jobAbort_abort_def split: option.splits)

lemma sched_job_resolve [simp]: "sched (job_resolve jid out s) = sched s"
  by (simp add: sched_def submitted_def job_resolve_def Let_def split: option.splits)

lemma sched_job_reject: "job_reject jid err s = Inr s' \<Longrightarrow> sched s' = sched s"
  by (auto simp add: sched_def submitted_def job_reject_def Let_def split: option.splits if_splits)

lemma sched_abortJob [simp]: "sched (abortJob jid s) = sched s"
proof -
  have "sched (s\<lparr>events := events s @ [AbortJobRequested jid]\<rparr>) = sched s"
    by (simp add: sched_def submitted_def)
  then show ?thesis
    by (simp add: abortJob_def Let_def split: option.splits)
qed

lemma sched_dispatch_queueAbort [simp]: "sched (dispatch_queueAbort ls s) = sched s"
  unfolding dispatch_queueAbort_def
  by (induction ls arbitrary: s) simp_all

lemma sched_abort [simp]: "sched (abort s) = sched s"
proof -
  have "sched (abort s) = sched (dispatch_queueAbort (queueAbort s) s)"
    by (simp add: abort_def sched_def submitted_def)
  then show ?thesis
    by simp
qed

lemma sched_fields:
  assumes "sched s' = sched s"
  shows "concurrency s' = concurrency s" and "queue s' = queue s"
    and "processingJobs s' = processingJobs s" and "calls s' = calls s"
    and "executing s' = executing s" and "finishing s' = finishing s"
    and "unhandled s' = unhandled s" and "submitted s' = submitted s"
    and "dom (jobs s') = dom (jobs s)"
  using assms by (simp_all add: sched_def)

lemma sched_timer: "sched (onTimeoutOrAbort jid (upd_job jid f s)) = sched s"
  by simp

lemma sched_waitForJob [simp]: "sched (waitForJob jid t s) = sched s"
  by (simp add: sched_def submitted_def waitForJob_def)

lemma sched_wait_timed_out [simp]: "sched (wait_timed_out n s) = sched s"
  by (simp add: sched_def submitted_def wait_timed_out_def)

text \<open>The counter of \<^verbatim>\<open>run\<close> counts the promises of \<^verbatim>\<open>executeJob\<close> still to be followed up.\<close>

definition slots_inv :: "('i, 'o) queue_state \<Rightarrow> bool" where
  "slots_inv s \<longleftrightarrow>
     processingJobs s = int (length (executing s)) + int (length (finishing s)) \<and>
     processingJobs s \<le> concurrency s"

lemma concurrency_run [simp]: "concurrency (run s) = concurrency s"
proof (induction s rule: run.induct)
  case (1 s)
  show ?case
  proof (cases "processingJobs s < concurrency s")
    case False
    then show ?thesis by (simp add: run.simps [of s])
  next
    case True
    show ?thesis
    proof (cases "queue s")
      case Nil
      with True show ?thesis by (simp add: run.simps [of s])
    next
      case (Cons job rest)
      with True "1.IH" show ?thesis
        by (simp add: run.simps [of s] executeJob_def)
    qed
  qed
qed

lemma slots_inv_run: "slots_inv s \<Longrightarrow> slots_inv (run s)"
proof (induction s rule: run.induct)
  case (1 s)
  show ?case
  proof (cases "processingJobs s < concurrency s")
    case False
    with "1.prems" show ?thesis by (simp add: run.simps [of s])
  next
    case True
    show ?thesis
    proof (cases "queue s")
      case Nil
      with True "1.prems" show ?thesis by (simp add: run.simps [of s])
    next
      case (Cons job rest)
      show ?thesis
      proof (cases "aborted job (s\<lparr>queue := rest\<rparr>)")
        case skip: True
        have "slots_inv (s\<lparr>queue := rest\<rparr>)"
          using "1.prems" by (simp add: slots_inv_def)
        with "1.IH"(1) [OF True Cons skip] True Cons skip show ?thesis
          by (simp add: run.simps [of s])
      next
        case start: False
        have "slots_inv (executeJob job (s\<lparr>queue := rest, processingJobs := processingJobs s + 1\<rparr>))"
          using "1.prems" True by (simp add: slots_inv_def executeJob_def)
        with "1.IH"(2) [OF True Cons start] True Cons start show ?thesis
          by (simp add: run.simps [of s])
      qed
    qed
  qed
qed

lemma slots_inv_sched: "sched s' = sched s \<Longrightarrow> slots_inv s \<Longrightarrow> slots_inv s'"
  by (simp add: slots_inv_def sched_def)

lemma sched_executor_settled:
  "\<exists>u. sched (executor_settled jid r s) =
     (concurrency s, queue s, processingJobs s, calls s, remove1 jid (executing s),
      finishing s @ [jid], u, submitted s, dom (jobs s))"
proof -
  obtain r1 s1 where a: "then_resolve jid r s = (r1, s1)"
    by (cases "then_resolve jid r s")
  obtain r2 s2 where b: "catch_reject jid r1 s1 = (r2, s2)"
    by (cases "catch_reject jid r1 s1")
  have "sched s1 = sched s"
    using a by (auto simp add: then_resolve_def split: settlement.splits)
  moreover have "sched s2 = sched s1"
    using b by (auto simp add: catch_reject_def sched_job_reject split: settlement.splits sum.splits)
  ultimately have "sched s2 = sched s"
    by simp
  then show ?thesis
    using a b
    by (simp add: executor_settled_def finally_resolve_def Let_def sched_def submitted_def
        split: settlement.splits)
qed

lemma slots_inv_step: "enabled a s \<Longrightarrow> slots_inv s \<Longrightarrow> slots_inv (step a s)"
proof (cases a)
  case (Process jid d t sg)
  assume "slots_inv s"
  then show ?thesis
    unfolding Process step.simps process_def
    by (intro slots_inv_run) (simp add: slots_inv_def enqueue_def Let_def)
next
  case (ExecutorSettles jid r)
  assume "enabled a s" and inv: "slots_inv s"
  then have mem: "jid \<in> set (executing s)"
    using ExecutorSettles by simp
  then have "executing s \<noteq> []"
    by auto
  then have "int (length (remove1 jid (executing s))) = int (length (executing s)) - 1"
    using mem by (simp add: length_remove1 of_nat_diff Suc_leI)
  then show ?thesis
    using inv sched_executor_settled [of jid r s]
    by (auto simp add: ExecutorSettles slots_inv_def sched_def)
next
  case (ExecuteJobThen jid)
  assume "enabled a s" and inv: "slots_inv s"
  then have mem: "jid \<in> set (finishing s)"
    using ExecuteJobThen by simp
  then have "finishing s \<noteq> []"
    by auto
  then have "int (length (remove1 jid (finishing s))) = int (length (finishing s)) - 1"
    using mem by (simp add: length_remove1 of_nat_diff Suc_leI)
  then show ?thesis
    unfolding ExecuteJobThen step.simps executeJob_then_def
    using inv by (intro slots_inv_run) (simp add: slots_inv_def)
next
  case (TimerFires jid)
  assume "slots_inv s"
  moreover have "sched (step a s) = sched s"
    by (simp add: TimerFires)
  ultimately show ?thesis
    by (rule slots_inv_sched [rotated])
qed (auto intro: slots_inv_sched [rotated] split: option.splits)

lemma exec_invariant:
  assumes "\<And>a s. enabled a s \<Longrightarrow> P s \<Longrightarrow> P (step a s)" and "P s" and "valid as s"
  shows "P (exec as s)"
  using assms(2,3) by (induction as arbitrary: s) (simp_all add: assms(1))

lemma concurrency_step [simp]: "concurrency (step a s) = concurrency s"
proof (cases a)
  case (Process jid d t sg)
  then show ?thesis by (simp add: process_def enqueue_def Let_def)
next
  case (ExecutorSettles jid r)
  then show ?thesis
    using sched_executor_settled [of jid r s] by (auto simp add: sched_def)
next
  case (ExecuteJobThen jid)
  then show ?thesis by (simp add: executeJob_then_def)
next
  case (TimerFires jid)
  have "sched (step a s) = sched s"
    by (simp add: TimerFires sched_timer)
  then show ?thesis by (rule sched_fields)
next
  case (AbortJob jid)
  have "sched (step a s) = sched s"
    by (simp add: AbortJob)
  then show ?thesis by (rule sched_fields)
next
  case AbortQueue
  have "sched (step a s) = sched s"
    by (simp add: AbortQueue)
  then show ?thesis by (rule sched_fields)
next
  case (SignalAborts jid)
  have "sched (step a s) = sched s"
    by (simp add: SignalAborts split: option.splits)
  then show ?thesis by (rule sched_fields)
next
  case (WaitForJob jid t)
  have "sched (step a s) = sched s"
    by (simp add: WaitForJob)
  then show ?thesis by (rule sched_fields)
next
  case (WaitTimerFires n)
  have "sched (step a s) = sched s"
    by (simp add: WaitTimerFires)
  then show ?thesis by (rule sched_fields)
qed

lemma concurrency_exec: "concurrency (exec as s) = concurrency s"
  by (induction as arbitrary: s) simp_all

lemma slots_inv_exec: "valid as s \<Longrightarrow> slots_inv s \<Longrightarrow> slots_inv (exec as s)"
  by (induction as arbitrary: s) (simp_all add: slots_inv_step)

lemma slots_inv_init: "0 \<le> k \<Longrightarrow> slots_inv (init k)"
  by (simp add: slots_inv_def init_def)

subsection \<open>The state between two callbacks\<close>

text \<open>Whether an event reports the end of job \<open>i\<close>.\<close>

fun ends :: "job_id \<Rightarrow> ('i, 'o) event \<Rightarrow> bool" where
  "ends i (JobProcessed jid d r n) = (jid = i)"
| "ends i (JobCancelled jid d r n) = (jid = i)"
| "ends i e = False"

text \<open>
  What holds of the closure of job \<open>i\<close> between two callbacks: a pending job is wired
  and tracked, and no event has reported its end; a terminal one has released everything,
  has its promise settled and its end reported by one event.
\<close>

definition job_ok :: "('i, 'o) queue_state \<Rightarrow> job_id \<Rightarrow> bool" where
  "job_ok s i =
     (case jobs s i of
        None \<Rightarrow>
          jobStatus s i = None \<and> i \<notin> set (queueAbort s) \<and> i \<notin> set (queue s) \<and>
          i \<notin> set (calls s) \<and> filter (ends i) (events s) = []
      | Some j \<Rightarrow>
          (if status j = Pending
           then on_abort_job j \<and> \<not> jobAbort_aborted j \<and> i \<in> set (queueAbort s) \<and>
                promise j = None \<and> jobStatus s i \<noteq> None \<and>
                filter (ends i) (events s) = []
           else \<not> on_abort_job j \<and> \<not> on_signal j \<and> \<not> timeout j \<and>
                i \<notin> set (queueAbort s) \<and> promise j \<noteq> None \<and> jobStatus s i = None \<and>
                length (filter (ends i) (events s)) = 1) \<and>
          (status j = Processed \<longrightarrow> i \<in> set (calls s)) \<and>
          (i \<in> set (queue s) \<or> i \<in> set (calls s) \<or> status j = Aborted))"

definition state_ok :: "('i, 'o) queue_state \<Rightarrow> bool" where
  "state_ok s \<longleftrightarrow>
     (\<forall>i. job_ok s i) \<and> distinct (calls s @ queue s) \<and> set (executing s) \<subseteq> set (calls s)"

lemma settle_simps [simp]:
  "settle r None = Some r"
  "settle r (Some r') = Some r'"
  "settle r p \<noteq> None"
  by (simp_all add: settle_def split: option.splits)

lemma job_ok_onTimeoutOrAbort:
  "job_ok s i \<Longrightarrow> job_ok (onTimeoutOrAbort jid (upd_job jid (\<lambda>j. j\<lparr>timeout := False\<rparr>) s)) i"
  by (auto simp add: job_ok_def onTimeoutOrAbort_def Let_def split: option.splits if_splits)

lemma job_ok_jobAbort_abort: "job_ok s i \<Longrightarrow> job_ok (jobAbort_abort jid s) i"
  by (auto simp add: job_ok_def jobAbort_abort_def onTimeoutOrAbort_def Let_def
      split: option.splits if_splits)

lemma job_ok_job_resolve:
  "jid \<in> set (calls s) \<Longrightarrow> job_ok s i \<Longrightarrow> job_ok (job_resolve jid out s) i"
  by (auto simp add: job_ok_def job_resolve_def Let_def split: option.splits if_splits)

lemma job_ok_job_reject:
  "job_reject jid err s = Inr s' \<Longrightarrow> jid \<in> set (calls s) \<Longrightarrow> job_ok s i \<Longrightarrow> job_ok s' i"
  by (auto simp add: job_ok_def job_reject_def Let_def split: option.splits if_splits)

lemma aborted_queue_update [simp]: "aborted jid (s\<lparr>queue := q\<rparr>) = aborted jid s"
  by (simp add: aborted_def)

text \<open>A property kept by skipping and by starting the head of the backlog is kept by \<^verbatim>\<open>run\<close>.\<close>

lemma run_invariant:
  assumes "P s"
    and skip: "\<And>s job rest. P s \<Longrightarrow> processingJobs s < concurrency s \<Longrightarrow>
      queue s = job # rest \<Longrightarrow> aborted job s \<Longrightarrow> P (s\<lparr>queue := rest\<rparr>)"
    and start: "\<And>s job rest. P s \<Longrightarrow> processingJobs s < concurrency s \<Longrightarrow>
      queue s = job # rest \<Longrightarrow> \<not> aborted job s \<Longrightarrow>
      P (executeJob job (s\<lparr>queue := rest, processingJobs := processingJobs s + 1\<rparr>))"
  shows "P (run s)"
  using assms(1)
proof (induction s rule: run.induct)
  case (1 s)
  show ?case
  proof (cases "processingJobs s < concurrency s")
    case False
    with "1.prems" show ?thesis by (simp add: run.simps [of s])
  next
    case True
    show ?thesis
    proof (cases "queue s")
      case Nil
      with True "1.prems" show ?thesis by (simp add: run.simps [of s])
    next
      case (Cons job rest)
      show ?thesis
      proof (cases "aborted job s")
        case skipped: True
        then have "P (run (s\<lparr>queue := rest\<rparr>))"
          using "1.IH"(1) [OF True Cons] skip [OF "1.prems" True Cons] by simp
        with True Cons skipped show ?thesis
          by (simp add: run.simps [of s])
      next
        case started: False
        then have "P (run (executeJob job (s\<lparr>queue := rest, processingJobs := processingJobs s + 1\<rparr>)))"
          using "1.IH"(2) [OF True Cons] start [OF "1.prems" True Cons] by simp
        with True Cons started show ?thesis
          by (simp add: run.simps [of s])
      qed
    qed
  qed
qed

lemma job_ok_skip:
  "job_ok s i \<Longrightarrow> queue s = job # rest \<Longrightarrow> aborted job s \<Longrightarrow> job_ok (s\<lparr>queue := rest\<rparr>) i"
  by (auto simp add: job_ok_def aborted_def split: option.splits if_splits)

lemma job_ok_start:
  "job_ok s i \<Longrightarrow> job_ok s job \<Longrightarrow> distinct (calls s @ queue s) \<Longrightarrow> queue s = job # rest \<Longrightarrow>
   \<not> aborted job s \<Longrightarrow>
   job_ok (executeJob job (s\<lparr>queue := rest, processingJobs := processingJobs s + 1\<rparr>)) i"
  by (auto simp add: job_ok_def aborted_def executeJob_def split: option.splits if_splits)
    (metis status.exhaust)

lemma state_ok_run: "state_ok s \<Longrightarrow> state_ok (run s)"
proof (erule run_invariant)
  fix s :: "('i, 'o) queue_state" and job rest
  assume "state_ok s" and "queue s = job # rest" and "aborted job s"
  then show "state_ok (s\<lparr>queue := rest\<rparr>)"
    by (simp add: state_ok_def job_ok_skip)
next
  fix s :: "('i, 'o) queue_state" and job rest
  assume ok: "state_ok s" and q: "queue s = job # rest" and na: "\<not> aborted job s"
  let ?s = "executeJob job (s\<lparr>queue := rest, processingJobs := processingJobs s + 1\<rparr>)"
  have "job_ok ?s i" for i
    using ok q na by (intro job_ok_start) (simp_all add: state_ok_def)
  moreover have "distinct (calls ?s @ queue ?s)" and "set (executing ?s) \<subseteq> set (calls ?s)"
    using ok q by (auto simp add: state_ok_def executeJob_def)
  ultimately show "state_ok ?s"
    by (simp add: state_ok_def)
qed

lemma job_ok_cong:
  "jobs s' = jobs s \<Longrightarrow> jobStatus s' = jobStatus s \<Longrightarrow> queueAbort s' = queueAbort s \<Longrightarrow>
   queue s' = queue s \<Longrightarrow> calls s' = calls s \<Longrightarrow> events s' = events s \<Longrightarrow>
   job_ok s' i = job_ok s i"
  by (simp add: job_ok_def cong: option.case_cong if_cong)

lemma state_ok_sched:
  assumes "sched s' = sched s" and "\<And>i. job_ok s i \<Longrightarrow> job_ok s' i" and "state_ok s"
  shows "state_ok s'"
  using assms by (simp add: state_ok_def sched_def)

lemma queueAbort_jobAbort_abort:
  "job_ok s jid \<Longrightarrow> jid \<in> set (queueAbort s) \<Longrightarrow>
   queueAbort (jobAbort_abort jid s) = removeAll jid (queueAbort s)"
  by (auto simp add: job_ok_def jobAbort_abort_def onTimeoutOrAbort_def Let_def
      split: option.splits if_splits)

lemma dispatch_queueAbort_Cons:
  "dispatch_queueAbort (jid # ls) s =
     dispatch_queueAbort ls (if jid \<in> set (queueAbort s) then jobAbort_abort jid s else s)"
  by (simp add: dispatch_queueAbort_def)

lemma dispatch_queueAbort_Nil [simp]: "dispatch_queueAbort [] s = s"
  by (simp add: dispatch_queueAbort_def)

lemma job_ok_dispatch_queueAbort:
  "(\<And>i. job_ok s i) \<Longrightarrow> job_ok (dispatch_queueAbort ls s) i"
proof (induction ls arbitrary: s i)
  case Nil
  then show ?case by simp
next
  case (Cons jid ls)
  show ?case
    unfolding dispatch_queueAbort_Cons
    by (rule Cons.IH) (simp add: Cons.prems job_ok_jobAbort_abort)
qed

lemma set_queueAbort_dispatch:
  "(\<And>i. job_ok s i) \<Longrightarrow>
   set (queueAbort (dispatch_queueAbort ls s)) = set (queueAbort s) - set ls"
proof (induction ls arbitrary: s)
  case Nil
  then show ?case by simp
next
  case (Cons jid ls)
  let ?s = "if jid \<in> set (queueAbort s) then jobAbort_abort jid s else s"
  have "job_ok ?s i" for i
    by (simp add: Cons.prems job_ok_jobAbort_abort)
  then have "set (queueAbort (dispatch_queueAbort ls ?s)) = set (queueAbort ?s) - set ls"
    by (rule Cons.IH)
  moreover have "set (queueAbort ?s) = set (queueAbort s) - {jid}"
    using Cons.prems [of jid] by (auto simp add: queueAbort_jobAbort_abort)
  ultimately show ?case
    unfolding dispatch_queueAbort_Cons by auto
qed

lemma queueAbort_dispatch_all:
  "(\<And>i. job_ok s i) \<Longrightarrow> queueAbort (dispatch_queueAbort (queueAbort s) s) = []"
  using set_queueAbort_dispatch [of s "queueAbort s"] by simp

lemma state_ok_enqueue:
  assumes "state_ok s" and "jobs s jid = None"
  shows "state_ok (enqueue jid d t sg s)"
proof -
  have "job_ok s jid"
    using assms by (simp add: state_ok_def)
  then have out: "jid \<notin> set (queueAbort s)" "jid \<notin> set (queue s)" "jid \<notin> set (calls s)"
    "jobStatus s jid = None" "filter (ends jid) (events s) = []"
    using assms(2) by (simp_all add: job_ok_def)
  have "job_ok (enqueue jid d t sg s) i" for i
  proof (cases "i = jid")
    case True
    then show ?thesis
      using out(5) by (simp add: job_ok_def enqueue_def Let_def)
  next
    case False
    moreover have "job_ok s i"
      using assms by (simp add: state_ok_def)
    ultimately show ?thesis
      by (auto simp add: job_ok_def enqueue_def Let_def split: option.splits if_splits)
  qed
  moreover have "distinct (calls (enqueue jid d t sg s) @ queue (enqueue jid d t sg s))"
    using assms(1) out by (simp add: state_ok_def enqueue_def Let_def)
  moreover have "set (executing (enqueue jid d t sg s)) \<subseteq> set (calls (enqueue jid d t sg s))"
    using assms(1) by (simp add: state_ok_def enqueue_def Let_def)
  ultimately show ?thesis
    by (simp add: state_ok_def)
qed

lemma state_ok_executor_settled:
  assumes "state_ok s" and "jid \<in> set (executing s)"
  shows "state_ok (executor_settled jid r s)"
proof -
  have called: "jid \<in> set (calls s)"
    using assms by (auto simp add: state_ok_def)
  obtain r1 s1 where a: "then_resolve jid r s = (r1, s1)"
    by (cases "then_resolve jid r s")
  obtain r2 s2 where b: "catch_reject jid r1 s1 = (r2, s2)"
    by (cases "catch_reject jid r1 s1")
  have s1: "sched s1 = sched s" "\<And>i. job_ok s i \<Longrightarrow> job_ok s1 i"
    using a called by (auto simp add: then_resolve_def job_ok_job_resolve split: settlement.splits)
  then have ok1: "state_ok s1"
    using assms(1) by (rule state_ok_sched)
  have called1: "jid \<in> set (calls s1)"
    using called s1(1) by (simp add: sched_def)
  have s2: "sched s2 = sched s1" "\<And>i. job_ok s1 i \<Longrightarrow> job_ok s2 i"
    using b called1
    by (auto simp add: catch_reject_def sched_job_reject job_ok_job_reject
        split: settlement.splits sum.splits)
  then have ok2: "state_ok s2"
    using ok1 by (rule state_ok_sched)
  have "state_ok (finally_resolve jid r2 s2)"
  proof -
    have "job_ok (finally_resolve jid r2 s2) i = job_ok s2 i" for i
      by (rule job_ok_cong) (simp_all add: finally_resolve_def Let_def split: settlement.splits)
    moreover have "set (remove1 jid (executing s2)) \<subseteq> set (calls s2)"
      using ok2 set_remove1_subset [of jid "executing s2"] by (auto simp add: state_ok_def)
    ultimately show ?thesis
      using ok2 by (simp add: state_ok_def finally_resolve_def Let_def split: settlement.splits)
  qed
  then show ?thesis
    using a b by (simp add: executor_settled_def)
qed

lemma state_ok_abort: "state_ok s \<Longrightarrow> state_ok (abort s)"
proof -
  assume ok: "state_ok s"
  let ?s = "dispatch_queueAbort (queueAbort s) s"
  have all: "job_ok s i" for i
    using ok by (simp add: state_ok_def)
  have "state_ok ?s"
    by (rule state_ok_sched [OF _ _ ok]) (simp_all add: job_ok_dispatch_queueAbort all)
  moreover have "queueAbort ?s = []"
    using all by (rule queueAbort_dispatch_all)
  moreover have "job_ok (abort s) i = job_ok ?s i" for i
    by (rule job_ok_cong) (simp_all add: abort_def calculation(2))
  ultimately show ?thesis
    by (simp add: state_ok_def abort_def)
qed

lemma state_ok_step: "enabled a s \<Longrightarrow> state_ok s \<Longrightarrow> state_ok (step a s)"
proof (cases a)
  case (Process jid d t sg)
  assume "enabled a s" and "state_ok s"
  then show ?thesis
    by (simp add: Process process_def state_ok_run state_ok_enqueue)
next
  case (AbortJob jid)
  assume ok: "state_ok s"
  let ?s = "s\<lparr>events := events s @ [AbortJobRequested jid]\<rparr>"
  have "job_ok ?s i = job_ok s i" for i
    by (simp add: job_ok_def cong: option.case_cong if_cong)
  then have "job_ok s i \<Longrightarrow> job_ok (abortJob jid s) i" for i
    by (simp add: abortJob_def Let_def job_ok_jobAbort_abort split: option.splits)
  then show ?thesis
    unfolding AbortJob step.simps by (intro state_ok_sched [OF _ _ ok]) simp_all
next
  case AbortQueue
  assume "state_ok s"
  then show ?thesis
    by (simp add: AbortQueue state_ok_abort)
next
  case (SignalAborts jid)
  assume ok: "state_ok s"
  show ?thesis
    by (rule state_ok_sched [OF _ _ ok])
      (simp_all add: SignalAborts job_ok_jobAbort_abort split: option.splits)
next
  case (TimerFires jid)
  assume ok: "state_ok s"
  show ?thesis
    by (rule state_ok_sched [OF _ _ ok]) (simp_all add: TimerFires job_ok_onTimeoutOrAbort)
next
  case (ExecutorSettles jid r)
  assume "enabled a s" and "state_ok s"
  then show ?thesis
    by (simp add: ExecutorSettles state_ok_executor_settled)
next
  case (ExecuteJobThen jid)
  assume ok: "state_ok s"
  let ?s = "s\<lparr>finishing := remove1 jid (finishing s), processingJobs := processingJobs s - 1\<rparr>"
  have "job_ok ?s i = job_ok s i" for i
    by (rule job_ok_cong) simp_all
  then have "state_ok ?s"
    using ok by (simp add: state_ok_def)
  then show ?thesis
    by (simp add: ExecuteJobThen executeJob_then_def state_ok_run)
next
  case (WaitForJob jid t)
  assume ok: "state_ok s"
  have "job_ok (waitForJob jid t s) i = job_ok s i" for i
    by (rule job_ok_cong) (simp_all add: waitForJob_def)
  then show ?thesis
    unfolding WaitForJob step.simps by (intro state_ok_sched [OF _ _ ok]) simp_all
next
  case (WaitTimerFires n)
  assume ok: "state_ok s"
  have "job_ok (wait_timed_out n s) i = job_ok s i" for i
    by (rule job_ok_cong) (simp_all add: wait_timed_out_def)
  then show ?thesis
    unfolding WaitTimerFires step.simps by (intro state_ok_sched [OF _ _ ok]) simp_all
qed

lemma state_ok_init: "state_ok (init k)"
  by (simp add: state_ok_def job_ok_def init_def)

lemma state_ok_exec: "valid as (init k) \<Longrightarrow> state_ok (exec as (init k))"
  using state_ok_step state_ok_init by (rule exec_invariant)

subsection \<open>What a callback does to the job it belongs to, and to the others\<close>

lemma run_keeps:
  "jobs (run s) = jobs s \<and> events (run s) = events s \<and> queueAbort (run s) = queueAbort s \<and>
   waiters (run s) = waiters s \<and> finishing (run s) = finishing s \<and>
   unhandled (run s) = unhandled s"
  by (rule run_invariant [where s = s]) (simp_all add: executeJob_def)

lemma jobs_run [simp]: "jobs (run s) = jobs s"
  and events_run [simp]: "events (run s) = events s"
  and queueAbort_run [simp]: "queueAbort (run s) = queueAbort s"
  and waiters_run [simp]: "waiters (run s) = waiters s"
  and finishing_run [simp]: "finishing (run s) = finishing s"
  and unhandled_run [simp]: "unhandled (run s) = unhandled s"
  using run_keeps [of s] by simp_all

lemma aborted_run [simp]: "aborted i (run s) = aborted i s"
  by (simp add: aborted_def)

lemma jobs_onTimeoutOrAbort_other:
  "i \<noteq> jid \<Longrightarrow> jobs (onTimeoutOrAbort jid s) i = jobs s i"
  by (simp add: onTimeoutOrAbort_def Let_def split: option.splits)

lemma jobs_jobAbort_abort_other:
  "i \<noteq> jid \<Longrightarrow> jobs (jobAbort_abort jid s) i = jobs s i"
  by (simp add: jobAbort_abort_def jobs_onTimeoutOrAbort_other split: option.splits)

lemma jobs_job_resolve_other:
  "i \<noteq> jid \<Longrightarrow> jobs (job_resolve jid out s) i = jobs s i"
  by (simp add: job_resolve_def Let_def split: option.splits)

lemma jobs_job_reject_other:
  "job_reject jid err s = Inr s' \<Longrightarrow> i \<noteq> jid \<Longrightarrow> jobs s' i = jobs s i"
  by (auto simp add: job_reject_def Let_def split: option.splits if_splits)

text \<open>The three ways a job ends do nothing to a job that is not pending.\<close>

lemma onTimeoutOrAbort_noop:
  "jobs s i = Some j \<Longrightarrow> status j \<noteq> Pending \<Longrightarrow> onTimeoutOrAbort i s = s"
  by (simp add: onTimeoutOrAbort_def)

lemma job_resolve_noop:
  "jobs s i = Some j \<Longrightarrow> status j \<noteq> Pending \<Longrightarrow> job_resolve i out s = s"
  by (simp add: job_resolve_def)

lemma job_reject_noop:
  "jobs s i = Some j \<Longrightarrow> status j \<noteq> Pending \<Longrightarrow> job_reject i err s = Inr s"
  by (simp add: job_reject_def)

lemma jobs_executor_settled_other:
  "i \<noteq> jid \<Longrightarrow> jobs (executor_settled jid r s) i = jobs s i"
  by (auto simp add: executor_settled_def then_resolve_def catch_reject_def finally_resolve_def
      Let_def jobs_job_resolve_other jobs_job_reject_other split: settlement.splits sum.splits)

lemma jobs_executor_settled_noop:
  "jobs s i = Some j \<Longrightarrow> status j \<noteq> Pending \<Longrightarrow> jobs (executor_settled i r s) = jobs s"
  by (simp add: executor_settled_def then_resolve_def catch_reject_def finally_resolve_def
      Let_def job_resolve_noop job_reject_noop split: settlement.splits)

lemma set_queueAbort_jobAbort_abort:
  "set (queueAbort (jobAbort_abort jid s)) \<subseteq> set (queueAbort s)"
  by (auto simp add: jobAbort_abort_def onTimeoutOrAbort_def Let_def split: option.splits if_splits)

lemma jobs_dispatch_queueAbort_other:
  "i \<notin> set (queueAbort s) \<Longrightarrow> jobs (dispatch_queueAbort ls s) i = jobs s i"
proof (induction ls arbitrary: s)
  case Nil
  then show ?case by simp
next
  case (Cons jid ls)
  let ?s = "if jid \<in> set (queueAbort s) then jobAbort_abort jid s else s"
  have "i \<notin> set (queueAbort ?s)"
    using Cons.prems set_queueAbort_jobAbort_abort [of jid s] by auto
  then have "jobs (dispatch_queueAbort ls ?s) i = jobs ?s i"
    by (rule Cons.IH)
  moreover have "jobs ?s i = jobs s i"
  proof (cases "jid \<in> set (queueAbort s)")
    case True
    then have "i \<noteq> jid"
      using Cons.prems by auto
    then show ?thesis
      by (simp add: jobs_jobAbort_abort_other)
  next
    case False
    then show ?thesis by simp
  qed
  ultimately show ?case
    unfolding dispatch_queueAbort_Cons by simp
qed

text \<open>Once a job is not pending, no step of the host changes its closure.\<close>

lemma terminal_stable:
  assumes "enabled a s" and "job_ok s i" and "jobs s i = Some j" and "status j \<noteq> Pending"
  shows "jobs (step a s) i = Some j"
proof -
  have off: "\<not> on_abort_job j" "\<not> on_signal j" "\<not> timeout j" "i \<notin> set (queueAbort s)"
    using assms(2-4) by (simp_all add: job_ok_def)
  show ?thesis
  proof (cases a)
    case (Process jid d t sg)
    then have "jid \<noteq> i"
      using assms(1,3) by auto
    then show ?thesis
      using assms(3) by (simp add: Process process_def enqueue_def Let_def)
  next
    case (AbortJob jid)
    then show ?thesis
      using assms(3) off(1)
      by (cases "jid = i") (simp_all add: abortJob_def Let_def jobs_jobAbort_abort_other split: option.splits)
  next
    case AbortQueue
    then show ?thesis
      using assms(3) off(4) by (simp add: abort_def jobs_dispatch_queueAbort_other)
  next
    case (SignalAborts jid)
    then show ?thesis
      using assms(3) off(2)
      by (cases "jid = i") (simp_all add: jobs_jobAbort_abort_other split: option.splits)
  next
    case (TimerFires jid)
    then have "jid \<noteq> i"
      using assms(1,3) off(3) by auto
    then show ?thesis
      using assms(3) by (simp add: TimerFires jobs_onTimeoutOrAbort_other)
  next
    case (ExecutorSettles jid r)
    then show ?thesis
      using assms(3,4)
      by (cases "jid = i") (simp_all add: jobs_executor_settled_other jobs_executor_settled_noop)
  next
    case (ExecuteJobThen jid)
    then show ?thesis
      using assms(3) by (simp add: executeJob_then_def)
  next
    case (WaitForJob jid t)
    then show ?thesis
      using assms(3) by (simp add: waitForJob_def)
  next
    case (WaitTimerFires n)
    then show ?thesis
      using assms(3) by (simp add: wait_timed_out_def)
  qed
qed

text \<open>The closure of a job after it was cancelled for reason \<open>r\<close>.\<close>

definition cancelled :: "reason \<Rightarrow> ('i, 'o) job \<Rightarrow> ('i, 'o) job" where
  "cancelled r j = j\<lparr>status := Aborted, jobAbort_aborted := True, timeout := False,
     on_abort_job := False, on_signal := False,
     promise := Some (Rejected (ErrorObj (reason_text r)))\<rparr>"

lemma jobAbort_abort_pending:
  assumes "jobs s i = Some j" and "status j = Pending" and "\<not> jobAbort_aborted j"
    and "promise j = None"
  shows "jobs (jobAbort_abort i s) i = Some (cancelled ReasonAbort j)"
    and "events (jobAbort_abort i s) =
      events s @ [JobCancelled i (data j) ReasonAbort (length (queue s))]"
    and "jobStatus (jobAbort_abort i s) = (jobStatus s)(i := None)"
    and "waiters (jobAbort_abort i s) = map (listener i) (waiters s)"
  using assms
  by (simp_all add: jobAbort_abort_def onTimeoutOrAbort_def Let_def cancelled_def)

lemma timer_pending:
  assumes "jobs s i = Some j" and "status j = Pending" and "\<not> jobAbort_aborted j"
    and "promise j = None"
  shows "jobs (onTimeoutOrAbort i (upd_job i (\<lambda>j. j\<lparr>timeout := False\<rparr>) s)) i =
      Some (cancelled ReasonTimeout j)"
    and "events (onTimeoutOrAbort i (upd_job i (\<lambda>j. j\<lparr>timeout := False\<rparr>) s)) =
      events s @ [JobCancelled i (data j) ReasonTimeout (length (queue s))]"
    and "jobStatus (onTimeoutOrAbort i (upd_job i (\<lambda>j. j\<lparr>timeout := False\<rparr>) s)) =
      (jobStatus s)(i := None)"
    and "waiters (onTimeoutOrAbort i (upd_job i (\<lambda>j. j\<lparr>timeout := False\<rparr>) s)) =
      map (listener i) (waiters s)"
  using assms
  by (simp_all add: onTimeoutOrAbort_def Let_def cancelled_def)

lemma events_jobAbort_abort_mono: "set (events s) \<subseteq> set (events (jobAbort_abort jid s))"
  by (auto simp add: jobAbort_abort_def onTimeoutOrAbort_def Let_def split: option.splits)

lemma events_dispatch_queueAbort_mono:
  "set (events s) \<subseteq> set (events (dispatch_queueAbort ls s))"
proof (induction ls arbitrary: s)
  case Nil
  then show ?case by simp
next
  case (Cons jid ls)
  show ?case
    unfolding dispatch_queueAbort_Cons
    using Cons.IH [of "if jid \<in> set (queueAbort s) then jobAbort_abort jid s else s"]
      events_jobAbort_abort_mono [of s jid]
    by (auto split: if_splits)
qed

lemma pending_wired:
  assumes "job_ok s i" and "jobs s i = Some j" and "status j = Pending"
  shows "on_abort_job j" and "\<not> jobAbort_aborted j" and "i \<in> set (queueAbort s)"
    and "promise j = None" and "jobStatus s i \<noteq> None"
  using assms by (simp_all add: job_ok_def)

lemma dispatch_queueAbort_cancels:
  assumes "\<And>i. job_ok s i" and "jobs s i = Some j" and "status j = Pending" and "i \<in> set ls"
  shows "jobs (dispatch_queueAbort ls s) i = Some (cancelled ReasonAbort j) \<and>
    JobCancelled i (data j) ReasonAbort (length (queue s)) \<in> set (events (dispatch_queueAbort ls s))"
  using assms
proof (induction ls arbitrary: s)
  case Nil
  then show ?case by simp
next
  case (Cons jid ls)
  let ?s = "if jid \<in> set (queueAbort s) then jobAbort_abort jid s else s"
  have ok: "job_ok ?s i" for i
    by (simp add: Cons.prems(1) job_ok_jobAbort_abort)
  have wired: "\<not> jobAbort_aborted j" "i \<in> set (queueAbort s)" "promise j = None"
    using pending_wired [OF Cons.prems(1) Cons.prems(2,3)] by simp_all
  show ?case
  proof (cases "jid = i")
    case True
    then have s: "?s = jobAbort_abort i s"
      using wired(2) by simp
    have now: "jobs ?s i = Some (cancelled ReasonAbort j)"
      and ev: "JobCancelled i (data j) ReasonAbort (length (queue s)) \<in> set (events ?s)"
      unfolding s using jobAbort_abort_pending [OF Cons.prems(2,3) wired(1,3)] by simp_all
    have "i \<notin> set (queueAbort ?s)"
      using ok [of i] now by (simp add: job_ok_def cancelled_def)
    then have "jobs (dispatch_queueAbort ls ?s) i = jobs ?s i"
      by (rule jobs_dispatch_queueAbort_other)
    then show ?thesis
      unfolding dispatch_queueAbort_Cons
      using now ev events_dispatch_queueAbort_mono [of ?s ls] by auto
  next
    case False
    then have "i \<in> set ls"
      using Cons.prems(4) by simp
    moreover have "jobs ?s i = Some j"
      using False Cons.prems(2) by (simp add: jobs_jobAbort_abort_other)
    moreover have "queue ?s = queue s"
      using sched_fields(2) [of "jobAbort_abort jid s" s] by simp
    ultimately show ?thesis
      unfolding dispatch_queueAbort_Cons
      using Cons.IH [of ?s] ok Cons.prems(3) by simp
  qed
qed

text \<open>
  The steps that cancel job \<open>i\<close>: \<^verbatim>\<open>abortJob\<close> with its id, \<^verbatim>\<open>abort\<close>, the signal its
  caller gave (if one was given), its timer; and the reason each gives.
\<close>

fun cancels :: "('i, 'o) action \<Rightarrow> job_id \<Rightarrow> ('i, 'o) queue_state \<Rightarrow> bool" where
  "cancels (AbortJob jid) i s = (jid = i)"
| "cancels AbortQueue i s = True"
| "cancels (SignalAborts jid) i s =
     (jid = i \<and> (case jobs s i of None \<Rightarrow> False | Some j \<Rightarrow> on_signal j))"
| "cancels (TimerFires jid) i s = (jid = i)"
| "cancels a i s = False"

fun cancel_reason :: "('i, 'o) action \<Rightarrow> reason" where
  "cancel_reason (TimerFires jid) = ReasonTimeout"
| "cancel_reason a = ReasonAbort"

lemma sched_cancels: "cancels a i s \<Longrightarrow> sched (step a s) = sched s"
  by (cases a) (simp_all split: option.splits)

lemma cancel_effect:
  assumes "\<And>i. job_ok s i" and "jobs s i = Some j" and "status j = Pending"
    and "cancels a i s" and "enabled a s"
  shows "jobs (step a s) i = Some (cancelled (cancel_reason a) j)"
    and "JobCancelled i (data j) (cancel_reason a) (length (queue s)) \<in> set (events (step a s))"
proof -
  note wired = pending_wired [OF assms(1) assms(2,3)]
  have "jobs (step a s) i = Some (cancelled (cancel_reason a) j) \<and>
    JobCancelled i (data j) (cancel_reason a) (length (queue s)) \<in> set (events (step a s))"
  proof (cases a)
    case (AbortJob jid)
    then have "jid = i"
      using assms(4) by simp
    then show ?thesis
      using assms(2) wired(1)
        jobAbort_abort_pending(1,2) [of "s\<lparr>events := events s @ [AbortJobRequested i]\<rparr>" i j]
        assms(3) wired(2,4)
      by (simp add: AbortJob abortJob_def Let_def)
  next
    case AbortQueue
    then show ?thesis
      using dispatch_queueAbort_cancels [OF assms(1) assms(2,3) wired(3)]
      by (simp add: abort_def)
  next
    case (SignalAborts jid)
    then have "jid = i" and "on_signal j"
      using assms(2,4) by simp_all
    then show ?thesis
      using assms(2) jobAbort_abort_pending(1,2) [OF assms(2,3) wired(2,4)]
      by (simp add: SignalAborts)
  next
    case (TimerFires jid)
    then have "jid = i"
      using assms(4) by simp
    then show ?thesis
      using timer_pending(1,2) [OF assms(2,3) wired(2,4)]
      by (simp add: TimerFires)
  qed (use assms(4) in simp_all)
  then show "jobs (step a s) i = Some (cancelled (cancel_reason a) j)"
    and "JobCancelled i (data j) (cancel_reason a) (length (queue s)) \<in> set (events (step a s))"
    by simp_all
qed

text \<open>A job in the backlog that is not cancelled is pending and was not passed to the executor.\<close>

lemma backlog_pending:
  assumes "state_ok s" and "i \<in> set (queue s)" and "\<not> aborted i s"
  obtains j where "jobs s i = Some j" and "status j = Pending" and "i \<notin> set (calls s)"
proof -
  have ok: "job_ok s i" and d: "distinct (calls s @ queue s)"
    using assms(1) by (simp_all add: state_ok_def)
  have nc: "i \<notin> set (calls s)"
    using d assms(2) by auto
  obtain j where j: "jobs s i = Some j"
    using ok assms(2) by (cases "jobs s i") (simp_all add: job_ok_def)
  have "status j \<noteq> Aborted"
    using assms(3) j by (simp add: aborted_def)
  moreover have "status j \<noteq> Processed"
    using ok j nc by (auto simp add: job_ok_def)
  ultimately have "status j = Pending"
    by (cases "status j") simp_all
  then show ?thesis
    using j nc that by blast
qed

text \<open>The events of a submission and of a result.\<close>

lemma events_process:
  "events (process jid d t sg s) = events s @ [JobAdded jid d (Suc (length (queue s)))]"
  by (simp add: process_def enqueue_def Let_def)

lemma events_executor_settled_resolve:
  assumes "jobs s r = Some j" and "status j = Pending"
  shows "events (executor_settled r (Fulfilled out) s) =
    events s @ [JobProcessed r (data j) (Fulfilled out) (length (queue s))]"
  using assms
  by (simp add: executor_settled_def then_resolve_def catch_reject_def finally_resolve_def
      job_resolve_def Let_def)


lemma jobStatus_run: "jobStatus s i \<noteq> None \<Longrightarrow> jobStatus (run s) i \<noteq> None"
  by (rule run_invariant [where s = s and P = "\<lambda>s'. jobStatus s' i \<noteq> None"])
    (auto simp add: executeJob_def)

subsection \<open>The bound on running jobs\<close>

text \<open>
  C1.  For a queue constructed with concurrency limit \<open>k \<ge> 1\<close> and every sequence of
  submissions, cancellations, shutdowns and settlements the host can produce, the counter
  \<^verbatim>\<open>processingJobs\<close> stays between \<open>0\<close> and \<open>k\<close>.
\<close>

theorem running_jobs_bounded:
  assumes "1 \<le> k" and "valid as (init k)"
  shows "0 \<le> processingJobs (exec as (init k)) \<and> processingJobs (exec as (init k)) \<le> k"
proof -
  have "slots_inv (exec as (init k))"
    using assms by (intro slots_inv_exec slots_inv_init) simp_all
  moreover have "concurrency (exec as (init k)) = k"
    using concurrency_exec [of as "init k"] by (simp add: init_def)
  ultimately show ?thesis
    by (simp add: slots_inv_def)
qed

text \<open>
  A trace with one slot: two submissions, the second cancelled while it waits, the first
  settling and its slot released, then a shutdown.
\<close>

definition tr1 :: "(nat, nat) action list" where
  "tr1 = [Process ''a'' 0 0 False, Process ''b'' 5 0 False, AbortJob ''b'',
      ExecutorSettles ''a'' (Fulfilled 1), ExecuteJobThen ''a'', AbortQueue]"

lemma valid_tr1: "valid tr1 (init 1)"
  by code_simp

theorem running_jobs_bounded_witness:
  "(1::int) \<le> 1 \<and> valid tr1 (init 1) \<and>
   0 \<le> processingJobs (exec tr1 (init 1)) \<and> processingJobs (exec tr1 (init 1)) \<le> 1"
  using running_jobs_bounded [of 1 tr1] valid_tr1 by simp

subsection \<open>A job cancelled in the backlog\<close>

lemma run_skips_aborted:
  assumes "aborted i s" and "i \<notin> set (calls s)"
  shows "i \<notin> set (calls (run s))"
proof -
  have "aborted i (run s) \<and> i \<notin> set (calls (run s))"
  proof (rule run_invariant [where s = s])
    show "aborted i s \<and> i \<notin> set (calls s)"
      using assms by simp
  next
    fix s :: "('i, 'o) queue_state" and job rest
    assume "aborted i s \<and> i \<notin> set (calls s)" and "\<not> aborted job s"
    then show "aborted i (executeJob job (s\<lparr>queue := rest, processingJobs := processingJobs s + 1\<rparr>)) \<and>
      i \<notin> set (calls (executeJob job (s\<lparr>queue := rest, processingJobs := processingJobs s + 1\<rparr>)))"
      by (auto simp add: executeJob_def aborted_def)
  qed simp
  then show ?thesis by simp
qed

lemma calls_step:
  "calls (step a s) = calls s \<or>
   (\<exists>jid d t sg. a = Process jid d t sg \<and> calls (step a s) = calls (run (enqueue jid d t sg s))) \<or>
   (\<exists>jid. a = ExecuteJobThen jid \<and> calls (step a s) =
      calls (run (s\<lparr>finishing := remove1 jid (finishing s), processingJobs := processingJobs s - 1\<rparr>)))"
proof (cases a)
  case (ExecutorSettles jid r)
  then show ?thesis
    using sched_executor_settled [of jid r s] by (auto simp add: sched_def)
next
  case (AbortJob jid)
  then show ?thesis
    using sched_fields(4) [of "step a s" s] by simp
next
  case AbortQueue
  then show ?thesis
    using sched_fields(4) [of "step a s" s] by simp
next
  case (SignalAborts jid)
  then show ?thesis
    using sched_fields(4) [of "step a s" s] by (simp split: option.splits)
next
  case (TimerFires jid)
  then show ?thesis
    using sched_fields(4) [of "step a s" s] by simp
next
  case (WaitForJob jid t)
  then show ?thesis
    using sched_fields(4) [of "step a s" s] by simp
next
  case (WaitTimerFires n)
  then show ?thesis
    using sched_fields(4) [of "step a s" s] by simp
qed (simp_all add: process_def executeJob_then_def)

lemma cancelled_unrun_step:
  assumes "enabled a s" and "job_ok s i" and "jobs s i = Some j" and "status j = Aborted"
    and "i \<notin> set (calls s)"
  shows "jobs (step a s) i = Some j \<and> i \<notin> set (calls (step a s))"
proof -
  have same: "jobs (step a s) i = Some j"
    using assms by (intro terminal_stable) simp_all
  have ab: "aborted i s"
    using assms(3,4) by (simp add: aborted_def)
  consider "calls (step a s) = calls s"
    | jid d t sg where "a = Process jid d t sg"
      "calls (step a s) = calls (run (enqueue jid d t sg s))"
    | jid where "a = ExecuteJobThen jid"
      "calls (step a s) = calls (run (s\<lparr>finishing := remove1 jid (finishing s),
         processingJobs := processingJobs s - 1\<rparr>))"
    using calls_step [of a s] by auto
  then have "i \<notin> set (calls (step a s))"
  proof cases
    case 1
    then show ?thesis using assms(5) by simp
  next
    case 2
    then have "jid \<noteq> i"
      using assms(1,3) by auto
    then have "aborted i (enqueue jid d t sg s)" and "i \<notin> set (calls (enqueue jid d t sg s))"
      using ab assms(5) by (simp_all add: aborted_def enqueue_def Let_def)
    then show ?thesis
      unfolding 2(2) by (rule run_skips_aborted)
  next
    case 3
    have "aborted i (s\<lparr>finishing := remove1 jid (finishing s), processingJobs := processingJobs s - 1\<rparr>)"
      using ab by (simp add: aborted_def)
    then show ?thesis
      unfolding 3(2) using assms(5) by (intro run_skips_aborted) simp_all
  qed
  with same show ?thesis by simp
qed

lemma cancelled_unrun_exec:
  fixes s :: "('i, 'o) queue_state"
  assumes "valid bs s" and "state_ok s" and "jobs s i = Some j" and "status j = Aborted"
    and "i \<notin> set (calls s)"
  shows "jobs (exec bs s) i = Some j \<and> i \<notin> set (calls (exec bs s)) \<and> state_ok (exec bs s)"
proof -
  let ?P = "\<lambda>s. state_ok s \<and> jobs s i = Some j \<and> i \<notin> set (calls s)"
  have "?P (exec bs s)"
  proof (rule exec_invariant [where P = ?P])
    fix a and s :: "('i, 'o) queue_state"
    assume en: "enabled a s" and P: "?P s"
    then have "job_ok s i"
      by (simp add: state_ok_def)
    then show "?P (step a s)"
      using cancelled_unrun_step [OF en _ _ assms(4)] P en by (simp add: state_ok_step)
  qed (use assms in simp_all)
  then show ?thesis by simp
qed

text \<open>
  C5.  A job cancelled while it is still in the backlog (by its id, by the shutdown, by
  the caller's signal or by its timer) is never passed to the executor, whatever happens
  afterwards: it is in no later list of executor calls and holds no slot, the counter is
  not changed by the cancellation, and its promise is rejected with \<^verbatim>\<open>abort\<close>, or with
  \<^verbatim>\<open>timeout\<close> when the timer cancelled it.
\<close>

theorem cancelled_in_backlog_never_runs:
  fixes as bs :: "('i, 'o) action list" and a :: "('i, 'o) action" and k :: int
  defines "s \<equiv> exec as (init k)"
  defines "s' \<equiv> step a s"
  assumes "valid as (init k)" and "i \<in> set (queue s)" and "\<not> aborted i s"
    and "cancels a i s" and "enabled a s" and "valid bs s'"
  shows "i \<notin> set (calls (exec bs s')) \<and> i \<notin> set (executing (exec bs s')) \<and>
    processingJobs s' = processingJobs s \<and>
    map_option promise (jobs (exec bs s') i) =
      Some (Some (Rejected (ErrorObj (reason_text (cancel_reason a)))))"
proof -
  have ok: "state_ok s"
    unfolding s_def using assms(3) by (rule state_ok_exec)
  then have all: "job_ok s i" for i
    by (simp add: state_ok_def)
  obtain j where j: "jobs s i = Some j" "status j = Pending" "i \<notin> set (calls s)"
    using ok assms(4,5) by (rule backlog_pending)
  have sched: "sched s' = sched s"
    unfolding s'_def using assms(6) by (rule sched_cancels)
  have now: "jobs s' i = Some (cancelled (cancel_reason a) j)"
    unfolding s'_def using all j(1,2) assms(6,7) by (rule cancel_effect)
  have ok': "state_ok s'"
    unfolding s'_def using assms(7) ok by (rule state_ok_step)
  have "i \<notin> set (calls s')"
    using j(3) sched by (simp add: sched_def)
  then have later: "jobs (exec bs s') i = Some (cancelled (cancel_reason a) j)"
    "i \<notin> set (calls (exec bs s'))" "state_ok (exec bs s')"
    using cancelled_unrun_exec [OF assms(8) ok' now] by (simp_all add: cancelled_def)
  then have "i \<notin> set (executing (exec bs s'))"
    by (auto simp add: state_ok_def)
  moreover have "processingJobs s' = processingJobs s"
    using sched by (rule sched_fields)
  ultimately show ?thesis
    using later(1,2) by (simp add: cancelled_def)
qed

text \<open>
  With one slot: \<open>a\<close> runs, \<open>b\<close> waits and is cancelled by its id; then \<open>a\<close>
  settles, its slot is released and \<open>c\<close> is submitted.
\<close>

definition tr5 :: "(nat, nat) action list" where
  "tr5 = [Process ''a'' 0 0 False, Process ''b'' 5 0 False]"

definition tr5' :: "(nat, nat) action list" where
  "tr5' = [ExecutorSettles ''a'' (Fulfilled 1), ExecuteJobThen ''a'', Process ''c'' 7 0 False]"

theorem cancelled_in_backlog_never_runs_witness:
  "valid tr5 (init 1) \<and> ''b'' \<in> set (queue (exec tr5 (init 1))) \<and>
   \<not> aborted ''b'' (exec tr5 (init 1)) \<and>
   cancels (AbortJob ''b'') ''b'' (exec tr5 (init 1)) \<and>
   enabled (AbortJob ''b'') (exec tr5 (init 1)) \<and>
   valid tr5' (step (AbortJob ''b'') (exec tr5 (init 1))) \<and>
   ''b'' \<notin> set (calls (exec tr5' (step (AbortJob ''b'') (exec tr5 (init 1))))) \<and>
   ''b'' \<notin> set (executing (exec tr5' (step (AbortJob ''b'') (exec tr5 (init 1))))) \<and>
   processingJobs (step (AbortJob ''b'') (exec tr5 (init 1))) = processingJobs (exec tr5 (init 1)) \<and>
   map_option promise (jobs (exec tr5' (step (AbortJob ''b'') (exec tr5 (init 1)))) ''b'') =
     Some (Some (Rejected (ErrorObj ''abort'')))"
proof -
  have 1: "valid tr5 (init 1)"
    by code_simp
  have 2: "''b'' \<in> set (queue (exec tr5 (init 1)))"
    by code_simp
  have 3: "\<not> aborted ''b'' (exec tr5 (init 1))"
    by code_simp
  have 4: "cancels (AbortJob ''b'') ''b'' (exec tr5 (init 1))"
    by simp
  have 5: "enabled (AbortJob ''b'') (exec tr5 (init 1))"
    by simp
  have 6: "valid tr5' (step (AbortJob ''b'') (exec tr5 (init 1)))"
    by code_simp
  show ?thesis
    using cancelled_in_backlog_never_runs [OF 1 2 3 4 5 6] 1 2 3 4 5 6 by simp
qed

subsection \<open>The backlog after a cancellation\<close>

text \<open>The steps that call \<^verbatim>\<open>run\<close>.\<close>

fun runs_admission :: "('i, 'o) action \<Rightarrow> bool" where
  "runs_admission (Process jid d t sg) = True"
| "runs_admission (ExecuteJobThen jid) = True"
| "runs_admission a = False"

lemma queue_step_other: "\<not> runs_admission a \<Longrightarrow> queue (step a s) = queue s"
proof (cases a)
  case (ExecutorSettles jid r)
  then show ?thesis
    using sched_executor_settled [of jid r s] by (auto simp add: sched_def)
next
  case (AbortJob jid)
  then show ?thesis
    using sched_fields(2) [of "step a s" s] by simp
next
  case AbortQueue
  then show ?thesis
    using sched_fields(2) [of "step a s" s] by simp
next
  case (SignalAborts jid)
  then show ?thesis
    using sched_fields(2) [of "step a s" s] by (simp split: option.splits)
next
  case (TimerFires jid)
  then show ?thesis
    using sched_fields(2) [of "step a s" s] by simp
next
  case (WaitForJob jid t)
  then show ?thesis
    using sched_fields(2) [of "step a s" s] by simp
next
  case (WaitTimerFires n)
  then show ?thesis
    using sched_fields(2) [of "step a s" s] by simp
qed simp_all

lemma queue_exec_other: "list_all (\<lambda>a. \<not> runs_admission a) bs \<Longrightarrow> queue (exec bs s) = queue s"
  by (induction bs arbitrary: s) (simp_all add: queue_step_other)

text \<open>
  C10.  Cancelling a job that waits in the backlog leaves its entry there: the backlog is
  the same list after the step, with the cancelled job in it, so the \<^verbatim>\<open>length\<close> getter
  and the last argument of the \<^verbatim>\<open>job-cancelled\<close> event count it, and so do the
  \<^verbatim>\<open>job-added\<close> and \<^verbatim>\<open>job-processed\<close> events emitted next.  No step but one that calls
  \<^verbatim>\<open>run\<close> changes the backlog.
\<close>

theorem cancelled_entry_stays_in_backlog:
  fixes as :: "('i, 'o) action list" and a :: "('i, 'o) action" and k :: int
  defines "s \<equiv> exec as (init k)"
  defines "s' \<equiv> step a s"
  assumes "valid as (init k)" and "jobs s i = Some j" and "i \<in> set (queue s)"
    and "\<not> aborted i s" and "cancels a i s" and "enabled a s"
  shows "queue s' = queue s \<and> i \<in> set (queue s') \<and> aborted i s' \<and>
    length_getter s' = length (queue s) \<and>
    JobCancelled i (data j) (cancel_reason a) (length (queue s)) \<in> set (events s') \<and>
    (\<forall>bs. list_all (\<lambda>b. \<not> runs_admission b) bs \<longrightarrow> queue (exec bs s') = queue s') \<and>
    (\<forall>jid d t sg. events (step (Process jid d t sg) s') =
       events s' @ [JobAdded jid d (Suc (length (queue s')))]) \<and>
    (\<forall>r jr out. jobs s' r = Some jr \<and> status jr = Pending \<longrightarrow>
       events (step (ExecutorSettles r (Fulfilled out)) s') =
       events s' @ [JobProcessed r (data jr) (Fulfilled out) (length (queue s'))])"
proof -
  have ok: "state_ok s"
    unfolding s_def using assms(3) by (rule state_ok_exec)
  then have all: "job_ok s i" for i
    by (simp add: state_ok_def)
  obtain j' where "jobs s i = Some j'" and "status j' = Pending"
    using ok assms(5,6) by (rule backlog_pending)
  then have j: "status j = Pending"
    using assms(4) by simp
  have "sched s' = sched s"
    unfolding s'_def using assms(7) by (rule sched_cancels)
  then have q: "queue s' = queue s"
    by (rule sched_fields)
  have now: "jobs s' i = Some (cancelled (cancel_reason a) j)"
    and ev: "JobCancelled i (data j) (cancel_reason a) (length (queue s)) \<in> set (events s')"
    unfolding s'_def using cancel_effect [OF all assms(4) j assms(7,8)] by simp_all
  have "aborted i s'"
    using now by (simp add: aborted_def cancelled_def)
  then show ?thesis
    using q ev assms(5)
    by (simp add: length_getter_def queue_exec_other events_process
        events_executor_settled_resolve)
qed

definition tr10 :: "(nat, nat) action list" where
  "tr10 = [Process ''a'' 0 0 False, Process ''b'' 5 0 True, Process ''c'' 7 0 False]"

theorem cancelled_entry_stays_in_backlog_witness:
  "valid tr10 (init 1) \<and>
   map_option data (jobs (exec tr10 (init 1)) ''b'') = Some 5 \<and>
   queue (exec tr10 (init 1)) = [''b'', ''c''] \<and>
   \<not> aborted ''b'' (exec tr10 (init 1)) \<and>
   cancels (SignalAborts ''b'') ''b'' (exec tr10 (init 1)) \<and>
   enabled (SignalAborts ''b'') (exec tr10 (init 1)) \<and>
   queue (step (SignalAborts ''b'') (exec tr10 (init 1))) = [''b'', ''c''] \<and>
   aborted ''b'' (step (SignalAborts ''b'') (exec tr10 (init 1))) \<and>
   length_getter (step (SignalAborts ''b'') (exec tr10 (init 1))) = 2 \<and>
   JobCancelled ''b'' 5 ReasonAbort 2 \<in> set (events (step (SignalAborts ''b'') (exec tr10 (init 1))))"
proof -
  obtain j where 2: "jobs (exec tr10 (init 1)) ''b'' = Some j" and d: "data j = 5"
    by (cases "jobs (exec tr10 (init 1)) ''b''") (simp_all add: tr10_def init_def process_def enqueue_def Let_def run.simps executeJob_def aborted_def)
  have 1: "valid tr10 (init 1)"
    by code_simp
  have q: "queue (exec tr10 (init 1)) = [''b'', ''c'']"
    by code_simp
  then have 3: "''b'' \<in> set (queue (exec tr10 (init 1)))"
    by simp
  have 4: "\<not> aborted ''b'' (exec tr10 (init 1))"
    by code_simp
  have 5: "cancels (SignalAborts ''b'') ''b'' (exec tr10 (init 1))"
    by code_simp
  have 6: "enabled (SignalAborts ''b'') (exec tr10 (init 1))"
    by simp
  show ?thesis
    using cancelled_entry_stays_in_backlog [OF 1 2 3 4 5 6] 1 2 q 4 5 6 d
    by (simp add: length_getter_def numeral_2_eq_2)
qed

subsection \<open>The timer of a job\<close>

lemma jobs_process_new:
  "jobs (process i d t sg s) i =
     Some \<lparr>data = d, status = Pending, jobAbort_aborted = False, timeout = (0 < t),
       on_abort_job = True, on_signal = sg, promise = None\<rparr>"
  by (simp add: process_def enqueue_def Let_def)

lemma timer_set_pending:
  assumes "job_ok s i" and "enabled (TimerFires i) s"
  obtains j where "jobs s i = Some j" and "status j = Pending"
proof (cases "jobs s i")
  case None
  then show ?thesis
    using assms(2) by simp
next
  case (Some j)
  then have "timeout j"
    using assms(2) by simp
  then have "status j = Pending"
    using assms(1) Some by (auto simp add: job_ok_def split: if_splits)
  with Some show ?thesis
    by (rule that)
qed

text \<open>
  C6.  A submission with time-out \<open>t\<close> sets the timer if and only if \<open>t > 0\<close>.  The
  timer is set by \<^verbatim>\<open>process\<close> itself, whether or not the job is started at once, and a
  later run of the admission loop leaves the closure of the job, so its timer, as it is.
  When the timer fires the job is still pending; it becomes \<^verbatim>\<open>aborted\<close>, its promise is
  rejected with \<^verbatim>\<open>timeout\<close> and \<^verbatim>\<open>job-cancelled\<close> is emitted with that reason; when this
  happens to a job that waits in the backlog, the job stays there, cancelled, and was not
  passed to the executor.
\<close>

theorem timer_set_at_submission:
  fixes as :: "('i, 'o) action list" and k :: int
  defines "s \<equiv> exec as (init k)"
  assumes "valid as (init k)"
  shows "(\<forall>d t sg. map_option timeout (jobs (step (Process i d t sg) s) i) = Some (0 < t)) \<and>
    (\<forall>jid. jobs (step (ExecuteJobThen jid) s) = jobs s) \<and>
    (enabled (TimerFires i) s \<longrightarrow>
       map_option status (jobs (step (TimerFires i) s) i) = Some Aborted \<and>
       map_option promise (jobs (step (TimerFires i) s) i) =
         Some (Some (Rejected (ErrorObj ''timeout''))) \<and>
       (\<exists>j. jobs s i = Some j \<and> status j = Pending \<and>
          events (step (TimerFires i) s) =
            events s @ [JobCancelled i (data j) ReasonTimeout (length (queue s))]) \<and>
       (i \<in> set (queue s) \<longrightarrow>
          i \<in> set (queue (step (TimerFires i) s)) \<and> i \<notin> set (calls (step (TimerFires i) s))))"
proof -
  have ok: "state_ok s"
    unfolding s_def using assms(2) by (rule state_ok_exec)
  then have all: "job_ok s i" for i
    by (simp add: state_ok_def)
  have fired: ?thesis if en: "enabled (TimerFires i) s"
  proof -
    obtain j where j: "jobs s i = Some j" "status j = Pending"
      using all en by (rule timer_set_pending)
    note wired = pending_wired [OF all j]
    note eff = timer_pending [OF j wired(2,4)]
    have "sched (step (TimerFires i) s) = sched s"
      by simp
    then have "queue (step (TimerFires i) s) = queue s" "calls (step (TimerFires i) s) = calls s"
      by (simp_all add: sched_def)
    moreover have "i \<in> set (queue s) \<Longrightarrow> i \<notin> set (calls s)"
      using ok by (auto simp add: state_ok_def)
    ultimately show ?thesis
      using j eff(1,2)
      by (simp add: jobs_process_new executeJob_then_def cancelled_def del: step.simps(5))
        (simp add: eff(2))
  qed
  show ?thesis
  proof (cases "enabled (TimerFires i) s")
    case True
    then show ?thesis by (rule fired)
  next
    case False
    then show ?thesis
      by (simp add: jobs_process_new executeJob_then_def del: enabled.simps)
  qed
qed

definition tr6 :: "(nat, nat) action list" where
  "tr6 = [Process ''a'' 0 0 False, Process ''b'' 5 (1 / 100) False]"

theorem timer_set_at_submission_witness:
  "valid tr6 (init 1) \<and>
   map_option timeout (jobs (step (Process ''c'' 7 0 False) (exec tr6 (init 1))) ''c'') = Some False \<and>
   map_option timeout (jobs (step (Process ''c'' 7 3 False) (exec tr6 (init 1))) ''c'') = Some True \<and>
   enabled (TimerFires ''b'') (exec tr6 (init 1)) \<and>
   ''b'' \<in> set (queue (exec tr6 (init 1))) \<and>
   map_option status (jobs (step (TimerFires ''b'') (exec tr6 (init 1))) ''b'') = Some Aborted \<and>
   map_option promise (jobs (step (TimerFires ''b'') (exec tr6 (init 1))) ''b'') =
     Some (Some (Rejected (ErrorObj ''timeout''))) \<and>
   ''b'' \<notin> set (calls (step (TimerFires ''b'') (exec tr6 (init 1))))"
proof -
  have 1: "valid tr6 (init 1)"
    by code_simp
  have 2: "enabled (TimerFires ''b'') (exec tr6 (init 1))"
    by code_simp
  have 3: "''b'' \<in> set (queue (exec tr6 (init 1)))"
    by code_simp
  note armed = timer_set_at_submission [OF 1, of "''c''", THEN conjunct1, rule_format]
  have 4: "map_option timeout (jobs (step (Process ''c'' 7 0 False) (exec tr6 (init 1))) ''c'') =
    Some False"
    using armed [of 7 0 False] by simp
  have 5: "map_option timeout (jobs (step (Process ''c'' 7 3 False) (exec tr6 (init 1))) ''c'') =
    Some True"
    using armed [of 7 3 False] by simp
  show ?thesis
    using timer_set_at_submission [OF 1, of "''b''"] 1 2 3 4 5
    by (simp del: step.simps enabled.simps)
qed

subsection \<open>When a slot is released\<close>

lemma run_post: "queue (run s) = [] \<or> concurrency s \<le> processingJobs (run s)"
proof (induction s rule: run.induct)
  case (1 s)
  show ?case
  proof (cases "processingJobs s < concurrency s")
    case False
    then show ?thesis by (simp add: run.simps [of s])
  next
    case True
    show ?thesis
    proof (cases "queue s")
      case Nil
      with True show ?thesis by (simp add: run.simps [of s])
    next
      case (Cons job rest)
      show ?thesis
      proof (cases "aborted job s")
        case skipped: True
        then show ?thesis
          using "1.IH"(1) [OF True Cons] True Cons by (simp add: run.simps [of s])
      next
        case started: False
        then show ?thesis
          using "1.IH"(2) [OF True Cons] True Cons
          by (simp add: run.simps [of s] executeJob_def)
      qed
    qed
  qed
qed

lemma run_counts:
  "processingJobs (run s) - int (length (calls (run s))) = processingJobs s - int (length (calls s))"
  by (rule run_invariant [where s = s and
        P = "\<lambda>s'. processingJobs s' - int (length (calls s')) = processingJobs s - int (length (calls s))"])
    (simp_all add: executeJob_def)

lemma processingJobs_run_mono: "processingJobs s \<le> processingJobs (run s)"
  by (rule run_invariant [where s = s and P = "\<lambda>s'. processingJobs s \<le> processingJobs s'"])
    (simp_all add: executeJob_def)

lemma processingJobs_step_other:
  "(\<forall>jid. a \<noteq> ExecuteJobThen jid) \<Longrightarrow> processingJobs s \<le> processingJobs (step a s)"
proof (cases a)
  case (Process jid d t sg)
  have "processingJobs (enqueue jid d t sg s) = processingJobs s"
    by (simp add: enqueue_def Let_def)
  then show ?thesis
    using processingJobs_run_mono [of "enqueue jid d t sg s"] by (simp add: Process process_def)
next
  case (ExecutorSettles jid r)
  then show ?thesis
    using sched_executor_settled [of jid r s] by (auto simp add: sched_def)
next
  case (AbortJob jid)
  then show ?thesis
    using sched_fields(3) [of "step a s" s] by simp
next
  case AbortQueue
  then show ?thesis
    using sched_fields(3) [of "step a s" s] by simp
next
  case (SignalAborts jid)
  then show ?thesis
    using sched_fields(3) [of "step a s" s] by (simp split: option.splits)
next
  case (TimerFires jid)
  then show ?thesis
    using sched_fields(3) [of "step a s" s] by simp
next
  case (WaitForJob jid t)
  then show ?thesis
    using sched_fields(3) [of "step a s" s] by simp
next
  case (WaitTimerFires n)
  then show ?thesis
    using sched_fields(3) [of "step a s" s] by simp
qed simp

text \<open>
  C3, as the code has it.  No cancellation changes the counter, the backlog or the list of
  executor calls: a job cancelled while its executor runs keeps its slot, and the
  admission loop is not run.  The counter goes down in one place only, the callback that
  follows the promise of \<^verbatim>\<open>executeJob\<close>.  When the executor's promise of a running job
  settles, with a result or an error and whether or not the job was cancelled before, that
  callback is queued; when it runs, the counter is one less and the admission loop has
  run: the counter went up again by one for each job started, and the loop stopped on an
  empty backlog or on a counter at the limit.
\<close>

theorem slot_released_when_executor_settles:
  fixes as :: "('i, 'o) action list" and k :: int
  defines "s \<equiv> exec as (init k)"
  assumes "valid as (init k)"
  shows "(\<forall>a i. cancels a i s \<longrightarrow>
       processingJobs (step a s) = processingJobs s \<and> queue (step a s) = queue s \<and>
       calls (step a s) = calls s \<and> executing (step a s) = executing s) \<and>
    (\<forall>a. (\<forall>jid. a \<noteq> ExecuteJobThen jid) \<longrightarrow> processingJobs s \<le> processingJobs (step a s)) \<and>
    (\<forall>i r. i \<in> set (executing s) \<longrightarrow>
       processingJobs (step (ExecutorSettles i r) s) = processingJobs s \<and>
       enabled (ExecuteJobThen i) (step (ExecutorSettles i r) s) \<and>
       processingJobs (step (ExecuteJobThen i) (step (ExecutorSettles i r) s)) =
         processingJobs s - 1 +
         (int (length (calls (step (ExecuteJobThen i) (step (ExecutorSettles i r) s)))) -
          int (length (calls s))) \<and>
       (queue (step (ExecuteJobThen i) (step (ExecutorSettles i r) s)) = [] \<or>
        concurrency s \<le> processingJobs (step (ExecuteJobThen i) (step (ExecutorSettles i r) s))))"
proof -
  have 1: "processingJobs (step a s) = processingJobs s \<and> queue (step a s) = queue s \<and>
       calls (step a s) = calls s \<and> executing (step a s) = executing s"
    if "cancels a i s" for a i
  proof -
    have "sched (step a s) = sched s"
      using that by (rule sched_cancels)
    then show ?thesis
      by (simp add: sched_def)
  qed
  have 3: "processingJobs (step (ExecutorSettles i r) s) = processingJobs s \<and>
       enabled (ExecuteJobThen i) (step (ExecutorSettles i r) s) \<and>
       processingJobs (step (ExecuteJobThen i) (step (ExecutorSettles i r) s)) =
         processingJobs s - 1 +
         (int (length (calls (step (ExecuteJobThen i) (step (ExecutorSettles i r) s)))) -
          int (length (calls s))) \<and>
       (queue (step (ExecuteJobThen i) (step (ExecutorSettles i r) s)) = [] \<or>
        concurrency s \<le> processingJobs (step (ExecuteJobThen i) (step (ExecutorSettles i r) s)))"
    for i r
  proof -
    let ?s1 = "executor_settled i r s"
    let ?s = "?s1\<lparr>finishing := remove1 i (finishing ?s1), processingJobs := processingJobs ?s1 - 1\<rparr>"
    have s1: "processingJobs ?s1 = processingJobs s" "calls ?s1 = calls s"
      "finishing ?s1 = finishing s @ [i]" "concurrency ?s1 = concurrency s"
      using sched_executor_settled [of i r s] by (auto simp add: sched_def)
    have "processingJobs (run ?s) - int (length (calls (run ?s))) =
      processingJobs ?s - int (length (calls ?s))"
      by (rule run_counts)
    moreover have "queue (run ?s) = [] \<or> concurrency ?s \<le> processingJobs (run ?s)"
      by (rule run_post)
    ultimately show ?thesis
      using s1 by (simp add: executeJob_then_def)
  qed
  have 2: "processingJobs s \<le> processingJobs (step a s)" if "\<forall>jid. a \<noteq> ExecuteJobThen jid" for a
    using that by (rule processingJobs_step_other)
  show ?thesis
    using 1 2 3 by blast
qed

text \<open>
  One slot: \<open>a\<close> runs and \<open>b\<close> waits.  Cancelling \<open>a\<close> leaves the counter at one and
  \<open>b\<close> in the backlog; \<open>b\<close> starts when the executor of \<open>a\<close> has settled and the
  callback has run.
\<close>

definition tr3 :: "(nat, nat) action list" where
  "tr3 = [Process ''a'' 0 0 False, Process ''b'' 5 0 False]"

theorem cancel_keeps_slot_counterexample:
  "valid tr3 (init 1) \<and>
   ''a'' \<in> set (executing (exec tr3 (init 1))) \<and>
   \<not> aborted ''a'' (exec tr3 (init 1)) \<and>
   queue (exec tr3 (init 1)) = [''b''] \<and>
   processingJobs (exec tr3 (init 1)) = 1 \<and>
   aborted ''a'' (step (AbortJob ''a'') (exec tr3 (init 1))) \<and>
   processingJobs (step (AbortJob ''a'') (exec tr3 (init 1))) \<noteq>
     processingJobs (exec tr3 (init 1)) - 1 \<and>
   processingJobs (step (AbortJob ''a'') (exec tr3 (init 1))) = 1 \<and>
   queue (step (AbortJob ''a'') (exec tr3 (init 1))) = [''b''] \<and>
   calls (step (AbortJob ''a'') (exec tr3 (init 1))) = [''a'']"
  by code_simp

theorem slot_released_when_executor_settles_witness:
  "valid tr3 (init 1) \<and>
   cancels (AbortJob ''a'') ''a'' (exec tr3 (init 1)) \<and>
   processingJobs (step (AbortJob ''a'') (exec tr3 (init 1))) = processingJobs (exec tr3 (init 1)) \<and>
   queue (step (AbortJob ''a'') (exec tr3 (init 1))) = queue (exec tr3 (init 1)) \<and>
   valid (tr3 @ [AbortJob ''a'']) (init 1) \<and>
   ''a'' \<in> set (executing (exec (tr3 @ [AbortJob ''a'']) (init 1))) \<and>
   enabled (ExecuteJobThen ''a'')
     (step (ExecutorSettles ''a'' (Rejected (ErrorObj ''abort''))) (exec (tr3 @ [AbortJob ''a'']) (init 1))) \<and>
   queue (step (ExecuteJobThen ''a'')
     (step (ExecutorSettles ''a'' (Rejected (ErrorObj ''abort''))) (exec (tr3 @ [AbortJob ''a'']) (init 1)))) = [] \<and>
   calls (step (ExecuteJobThen ''a'')
     (step (ExecutorSettles ''a'' (Rejected (ErrorObj ''abort''))) (exec (tr3 @ [AbortJob ''a'']) (init 1)))) =
     [''a'', ''b''] \<and>
   processingJobs (step (ExecuteJobThen ''a'')
     (step (ExecutorSettles ''a'' (Rejected (ErrorObj ''abort''))) (exec (tr3 @ [AbortJob ''a'']) (init 1)))) = 1"
proof -
  have 1: "valid tr3 (init 1)"
    by code_simp
  have 2: "cancels (AbortJob ''a'') ''a'' (exec tr3 (init 1))"
    by simp
  have 3: "valid (tr3 @ [AbortJob ''a'']) (init 1)"
    by code_simp
  have 4: "''a'' \<in> set (executing (exec (tr3 @ [AbortJob ''a'']) (init 1)))"
    by code_simp
  have 5: "calls (step (ExecuteJobThen ''a'')
     (step (ExecutorSettles ''a'' (Rejected (ErrorObj ''abort''))) (exec (tr3 @ [AbortJob ''a'']) (init 1)))) =
     [''a'', ''b'']"
    "calls (exec (tr3 @ [AbortJob ''a'']) (init 1)) = [''a'']"
    "processingJobs (exec (tr3 @ [AbortJob ''a'']) (init 1)) = 1"
    "queue (step (ExecuteJobThen ''a'')
     (step (ExecutorSettles ''a'' (Rejected (ErrorObj ''abort''))) (exec (tr3 @ [AbortJob ''a'']) (init 1)))) = []"
    by code_simp+
  note kept = slot_released_when_executor_settles [OF 1, THEN conjunct1, rule_format, OF 2]
  note freed = slot_released_when_executor_settles [OF 3, THEN conjunct2, THEN conjunct2,
      rule_format, OF 4, of "Rejected (ErrorObj ''abort'')"]
  show ?thesis
    using kept freed 1 2 3 4 5 by (simp del: step.simps enabled.simps exec.simps valid.simps)
qed

subsection \<open>The order of admission\<close>

text \<open>\<open>x\<close> occurs in the list, and \<open>y\<close> occurs after its first occurrence.\<close>

fun before :: "'a \<Rightarrow> 'a \<Rightarrow> 'a list \<Rightarrow> bool" where
  "before x y [] = False"
| "before x y (z # zs) = (if z = x then y \<in> set zs else before x y zs)"

lemma before_in_set: "before x y l \<Longrightarrow> x \<in> set l \<and> y \<in> set l"
  by (induction l) (auto split: if_splits)

lemma before_append:
  "before x y (xs @ ys) = (if x \<in> set xs then before x y xs \<or> y \<in> set ys else before x y ys)"
  by (induction xs) auto

lemma before_filter: "before x y l \<Longrightarrow> P x \<Longrightarrow> P y \<Longrightarrow> before x y (filter P l)"
  by (induction l) (auto split: if_splits)

text \<open>
  The jobs submitted that were not skipped are, in the order of submission, those passed
  to the executor followed by the backlog.
\<close>

definition fifo_inv :: "('i, 'o) queue_state \<Rightarrow> bool" where
  "fifo_inv s \<longleftrightarrow>
     distinct (submitted s) \<and> set (submitted s) \<subseteq> dom (jobs s) \<and>
     filter (\<lambda>i. i \<in> set (calls s) \<or> i \<in> set (queue s)) (submitted s) = calls s @ queue s"

lemma fifo_inv_sched: "sched s' = sched s \<Longrightarrow> fifo_inv s \<Longrightarrow> fifo_inv s'"
  by (simp add: fifo_inv_def sched_def)

lemma fifo_inv_distinct: "fifo_inv s \<Longrightarrow> distinct (calls s @ queue s)"
  unfolding fifo_inv_def using distinct_filter by metis

lemma submitted_executeJob [simp]: "submitted (executeJob job s) = submitted s"
  by (simp add: submitted_def executeJob_def)

lemma submitted_queue_update [simp]: "submitted (s\<lparr>queue := q\<rparr>) = submitted s"
  by (simp add: submitted_def)

lemma filter_neq_absent: "x \<notin> set xs \<Longrightarrow> filter (\<lambda>i. i \<noteq> x) xs = xs"
  by (induction xs) auto

lemma fifo_inv_run: "fifo_inv s \<Longrightarrow> fifo_inv (run s)"
proof (erule run_invariant)
  fix s :: "('i, 'o) queue_state" and job rest
  assume inv: "fifo_inv s" and q: "queue s = job # rest"
  have d: "job \<notin> set (calls s)" "job \<notin> set rest"
    using fifo_inv_distinct [OF inv] q by auto
  have "filter (\<lambda>i. i \<in> set (calls s) \<or> i \<in> set rest) (submitted s) =
    filter (\<lambda>i. i \<noteq> job) (filter (\<lambda>i. i \<in> set (calls s) \<or> i \<in> set (queue s)) (submitted s))"
    using d q by (auto intro: filter_cong)
  also have "\<dots> = filter (\<lambda>i. i \<noteq> job) (calls s @ job # rest)"
    using inv q by (simp add: fifo_inv_def)
  also have "\<dots> = calls s @ rest"
    using d by (simp add: filter_neq_absent)
  finally show "fifo_inv (s\<lparr>queue := rest\<rparr>)"
    using inv by (simp add: fifo_inv_def)
next
  fix s :: "('i, 'o) queue_state" and job rest
  assume inv: "fifo_inv s" and q: "queue s = job # rest"
  let ?s = "executeJob job (s\<lparr>queue := rest, processingJobs := processingJobs s + 1\<rparr>)"
  have "filter (\<lambda>i. i \<in> set (calls ?s) \<or> i \<in> set (queue ?s)) (submitted s) =
    filter (\<lambda>i. i \<in> set (calls s) \<or> i \<in> set (queue s)) (submitted s)"
    using q by (auto simp add: executeJob_def intro: filter_cong)
  moreover have "calls ?s @ queue ?s = calls s @ queue s"
    using q by (simp add: executeJob_def)
  moreover have "submitted ?s = submitted s" "dom (jobs ?s) = dom (jobs s)"
    by (simp_all add: executeJob_def submitted_def)
  ultimately show "fifo_inv ?s"
    using inv unfolding fifo_inv_def by simp
qed

lemma fifo_inv_enqueue:
  assumes "fifo_inv s" and "jobs s jid = None"
  shows "fifo_inv (enqueue jid d t sg s)"
proof -
  let ?e = "enqueue jid d t sg s"
  have new: "jid \<notin> set (submitted s)"
    using assms by (auto simp add: fifo_inv_def)
  have e: "submitted ?e = submitted s @ [jid]" "queue ?e = queue s @ [jid]" "calls ?e = calls s"
    "dom (jobs ?e) = insert jid (dom (jobs s))"
    by (simp_all add: enqueue_def Let_def submitted_def)
  have "filter (\<lambda>i. i \<in> set (calls s) \<or> i \<in> set (queue s @ [jid])) (submitted s) =
    filter (\<lambda>i. i \<in> set (calls s) \<or> i \<in> set (queue s)) (submitted s)"
    using new by (auto intro: filter_cong)
  then show ?thesis
    using assms(1) new unfolding fifo_inv_def e by auto
qed

lemma fifo_inv_step: "enabled a s \<Longrightarrow> fifo_inv s \<Longrightarrow> fifo_inv (step a s)"
proof (cases a)
  case (Process jid d t sg)
  assume "enabled a s" and "fifo_inv s"
  then show ?thesis
    by (simp add: Process process_def fifo_inv_run fifo_inv_enqueue)
next
  case (ExecutorSettles jid r)
  assume "fifo_inv s"
  then show ?thesis
    using sched_executor_settled [of jid r s]
    by (auto simp add: ExecutorSettles fifo_inv_def sched_def)
next
  case (ExecuteJobThen jid)
  assume inv: "fifo_inv s"
  have "fifo_inv (s\<lparr>finishing := remove1 jid (finishing s), processingJobs := processingJobs s - 1\<rparr>)"
    using inv by (simp add: fifo_inv_def submitted_def)
  then show ?thesis
    by (simp add: ExecuteJobThen executeJob_then_def fifo_inv_run)
next
  case (AbortJob jid)
  assume "fifo_inv s"
  then show ?thesis
    by (simp add: AbortJob fifo_inv_sched [of "abortJob jid s" s])
next
  case AbortQueue
  assume "fifo_inv s"
  then show ?thesis
    by (simp add: AbortQueue fifo_inv_sched [of "abort s" s])
next
  case (SignalAborts jid)
  assume "fifo_inv s"
  then show ?thesis
    by (simp add: SignalAborts fifo_inv_sched [of "jobAbort_abort jid s" s] split: option.splits)
next
  case (TimerFires jid)
  assume "fifo_inv s"
  then show ?thesis
    unfolding TimerFires step.simps by (rule fifo_inv_sched [rotated]) simp
next
  case (WaitForJob jid t)
  assume "fifo_inv s"
  then show ?thesis
    by (simp add: WaitForJob fifo_inv_sched [of "waitForJob jid t s" s])
next
  case (WaitTimerFires n)
  assume "fifo_inv s"
  then show ?thesis
    by (simp add: WaitTimerFires fifo_inv_sched [of "wait_timed_out n s" s])
qed

lemma fifo_inv_init: "fifo_inv (init k)"
  by (simp add: fifo_inv_def init_def submitted_def)

lemma fifo_inv_exec: "valid as (init k) \<Longrightarrow> fifo_inv (exec as (init k))"
  using fifo_inv_step fifo_inv_init by (rule exec_invariant)

text \<open>
  One run of the admission loop takes a prefix off the backlog and passes the jobs of
  that prefix that are not cancelled to the executor, in their order.
\<close>

lemma run_shape:
  "\<exists>n. queue (run s) = drop n (queue s) \<and>
     calls (run s) = calls s @ filter (\<lambda>i. \<not> aborted i s) (take n (queue s))"
proof (induction s rule: run.induct)
  case (1 s)
  show ?case
  proof (cases "processingJobs s < concurrency s")
    case False
    then have "queue (run s) = drop 0 (queue s) \<and>
      calls (run s) = calls s @ filter (\<lambda>i. \<not> aborted i s) (take 0 (queue s))"
      by (simp add: run.simps [of s])
    then show ?thesis ..
  next
    case True
    show ?thesis
    proof (cases "queue s")
      case Nil
      with True show ?thesis by (simp add: run.simps [of s])
    next
      case (Cons job rest)
      show ?thesis
      proof (cases "aborted job s")
        case skipped: True
        let ?s = "s\<lparr>queue := rest\<rparr>"
        obtain n where "queue (run ?s) = drop n (queue ?s)"
          "calls (run ?s) = calls ?s @ filter (\<lambda>i. \<not> aborted i ?s) (take n (queue ?s))"
          using "1.IH"(1) [OF True Cons] skipped by auto
        then have "queue (run s) = drop (Suc n) (queue s) \<and>
          calls (run s) = calls s @ filter (\<lambda>i. \<not> aborted i s) (take (Suc n) (queue s))"
          using True Cons skipped by (simp add: run.simps [of s])
        then show ?thesis ..
      next
        case started: False
        let ?s = "executeJob job (s\<lparr>queue := rest, processingJobs := processingJobs s + 1\<rparr>)"
        have ab: "aborted i ?s = aborted i s" for i
          by (simp add: aborted_def executeJob_def)
        obtain n where "queue (run ?s) = drop n (queue ?s)"
          "calls (run ?s) = calls ?s @ filter (\<lambda>i. \<not> aborted i ?s) (take n (queue ?s))"
          using "1.IH"(2) [OF True Cons] started by auto
        then have "queue (run s) = drop (Suc n) (queue s) \<and>
          calls (run s) = calls s @ filter (\<lambda>i. \<not> aborted i s) (take (Suc n) (queue s))"
          using True Cons started by (simp add: run.simps [of s] ab) (simp add: executeJob_def)
        then show ?thesis ..
      qed
    qed
  qed
qed

text \<open>
  C4.  Of two jobs submitted to the same queue, the one submitted first is passed to the
  executor first: when the later one has been passed to the executor, the earlier one was
  passed before it, unless it was cancelled in the backlog and so never passed.  Skipping
  a cancelled job keeps the order of the rest: a run of the admission loop leaves a
  suffix of the backlog and starts, in their order, the jobs it took that are not
  cancelled.
\<close>

theorem admission_is_fifo:
  fixes as :: "('i, 'o) action list" and k :: int
  defines "s \<equiv> exec as (init k)"
  assumes "valid as (init k)"
  shows "(before j1 j2 (submitted s) \<and> j2 \<in> set (calls s) \<longrightarrow>
       before j1 j2 (calls s) \<or> (j1 \<notin> set (calls s) \<and> aborted j1 s)) \<and>
    (\<exists>n. queue (run s) = drop n (queue s) \<and>
       calls (run s) = calls s @ filter (\<lambda>i. \<not> aborted i s) (take n (queue s)))"
proof -
  have fifo: "fifo_inv s" and ok: "state_ok s"
    unfolding s_def using assms(2) by (rule fifo_inv_exec, rule state_ok_exec)
  let ?P = "\<lambda>i. i \<in> set (calls s) \<or> i \<in> set (queue s)"
  have d: "distinct (calls s @ queue s)"
    using fifo by (rule fifo_inv_distinct)
  have "before j1 j2 (calls s) \<or> (j1 \<notin> set (calls s) \<and> aborted j1 s)"
    if b: "before j1 j2 (submitted s)" and c: "j2 \<in> set (calls s)"
  proof (cases "?P j1")
    case True
    then have "before j1 j2 (filter ?P (submitted s))"
      using b c by (intro before_filter) simp_all
    then have "before j1 j2 (calls s @ queue s)"
      using fifo by (simp add: fifo_inv_def)
    then show ?thesis
      using d c by (auto simp add: before_append dest: before_in_set split: if_splits)
  next
    case False
    have "j1 \<in> dom (jobs s)"
      using before_in_set [OF b] fifo by (auto simp add: fifo_inv_def)
    then obtain j where "jobs s j1 = Some j"
      by auto
    moreover have "job_ok s j1"
      using ok by (simp add: state_ok_def)
    ultimately have "aborted j1 s"
      using False by (auto simp add: job_ok_def aborted_def)
    then show ?thesis
      using False by simp
  qed
  then show ?thesis
    using run_shape [of s] by blast
qed

definition tr4 :: "(nat, nat) action list" where
  "tr4 = [Process ''a'' 0 0 False, Process ''b'' 5 0 False, Process ''c'' 7 0 False,
     Process ''d'' 9 0 False, AbortJob ''c'', ExecutorSettles ''a'' (Fulfilled 1),
     ExecuteJobThen ''a'', ExecutorSettles ''b'' (Fulfilled 1), ExecuteJobThen ''b'']"

theorem admission_is_fifo_witness:
  "valid tr4 (init 1) \<and>
   submitted (exec tr4 (init 1)) = [''a'', ''b'', ''c'', ''d''] \<and>
   calls (exec tr4 (init 1)) = [''a'', ''b'', ''d''] \<and>
   before ''b'' ''d'' (submitted (exec tr4 (init 1))) \<and>
   before ''b'' ''d'' (calls (exec tr4 (init 1))) \<and>
   before ''c'' ''d'' (submitted (exec tr4 (init 1))) \<and>
   ''c'' \<notin> set (calls (exec tr4 (init 1))) \<and> aborted ''c'' (exec tr4 (init 1))"
proof -
  have 1: "valid tr4 (init 1)"
    by code_simp
  have 2: "submitted (exec tr4 (init 1)) = [''a'', ''b'', ''c'', ''d'']"
    "calls (exec tr4 (init 1)) = [''a'', ''b'', ''d'']"
    by code_simp+
  note fifo = admission_is_fifo [OF 1, THEN conjunct1, rule_format]
  show ?thesis
    using fifo [of "''b''" "''d''"] fifo [of "''c''" "''d''"] 1 2 by simp
qed

subsection \<open>An executor that fails\<close>

lemma executor_rejected_pending:
  assumes "jobs s i = Some j" and "status j = Pending" and "to_error err = Some e"
  shows "unhandled (executor_settled i (Rejected err) s) = unhandled s"
    and "map_option promise (jobs (executor_settled i (Rejected err) s) i) =
      Some (settle (Rejected e) (promise j))"
    and "map_option status (jobs (executor_settled i (Rejected err) s) i) = Some Processed"
    and "events (executor_settled i (Rejected err) s) =
      events s @ [JobProcessed i (data j) (Rejected e) (length (queue s))]"
  using assms
  by (simp_all add: executor_settled_def then_resolve_def catch_reject_def finally_resolve_def
      job_reject_def Let_def)

lemma executor_rejected_terminal:
  assumes "jobs s i = Some j" and "status j \<noteq> Pending"
  shows "unhandled (executor_settled i (Rejected err) s) = unhandled s"
    and "jobs (executor_settled i (Rejected err) s) = jobs s"
    and "events (executor_settled i (Rejected err) s) = events s"
  using assms
  by (simp_all add: executor_settled_def then_resolve_def catch_reject_def finally_resolve_def
      job_reject_def Let_def)

text \<open>
  X1.  When the promise of the executor of a running job rejects with an
  \<^verbatim>\<open>Error\<close>, or with another value that \<^verbatim>\<open>String\<close> converts, no rejection is left
  unhandled.  If the job is still pending its promise is rejected with the error (the
  value itself, or an \<^verbatim>\<open>Error\<close> made of its string), it becomes \<^verbatim>\<open>processed\<close> and
  \<^verbatim>\<open>job-processed\<close> is emitted with the error; if the job was cancelled before, its
  closure stays as it is and no event is emitted.
\<close>

theorem executor_failure_rejects_outcome:
  fixes as :: "('i, 'o) action list" and k :: int and i :: job_id and err :: jsval
  defines "s \<equiv> exec as (init k)"
  defines "s' \<equiv> step (ExecutorSettles i (Rejected err)) s"
  assumes "valid as (init k)" and "i \<in> set (executing s)" and "to_error err = Some e"
  shows "unhandled s' = unhandled s \<and>
    (\<exists>j. jobs s i = Some j \<and>
       (status j = Pending \<longrightarrow>
          map_option promise (jobs s' i) = Some (Some (Rejected e)) \<and>
          map_option status (jobs s' i) = Some Processed \<and>
          events s' = events s @ [JobProcessed i (data j) (Rejected e) (length (queue s))]) \<and>
       (status j \<noteq> Pending \<longrightarrow> jobs s' = jobs s \<and> events s' = events s))"
proof -
  have ok: "state_ok s"
    unfolding s_def using assms(3) by (rule state_ok_exec)
  then have jok: "job_ok s i" and "i \<in> set (calls s)"
    using assms(4) by (auto simp add: state_ok_def)
  then obtain j where j: "jobs s i = Some j"
    by (cases "jobs s i") (simp_all add: job_ok_def)
  show ?thesis
  proof (cases "status j = Pending")
    case True
    then have "promise j = None"
      using jok j by (simp add: job_ok_def)
    then show ?thesis
      using executor_rejected_pending [OF j True assms(5)] j True by (simp add: s'_def)
  next
    case False
    then show ?thesis
      using executor_rejected_terminal [OF j False, of err] j by (simp add: s'_def)
  qed
qed

definition tr9 :: "(nat, nat) action list" where
  "tr9 = [Process ''a'' 0 0 False, Process ''b'' 5 0 False, AbortJob ''b'']"

theorem executor_failure_rejects_outcome_witness:
  "valid tr9 (init 2) \<and> ''a'' \<in> set (executing (exec tr9 (init 2))) \<and>
   ''b'' \<in> set (executing (exec tr9 (init 2))) \<and>
   to_error (Printable ''disk full'') = Some (ErrorObj ''disk full'') \<and>
   unhandled (step (ExecutorSettles ''a'' (Rejected (Printable ''disk full''))) (exec tr9 (init 2))) = [] \<and>
   unhandled (step (ExecutorSettles ''b'' (Rejected (Printable ''disk full''))) (exec tr9 (init 2))) = [] \<and>
   map_option promise
     (jobs (step (ExecutorSettles ''a'' (Rejected (Printable ''disk full''))) (exec tr9 (init 2))) ''a'') =
     Some (Some (Rejected (ErrorObj ''disk full''))) \<and>
   map_option promise
     (jobs (step (ExecutorSettles ''b'' (Rejected (Printable ''disk full''))) (exec tr9 (init 2))) ''b'') =
     Some (Some (Rejected (ErrorObj ''abort'')))"
proof -
  have 1: "valid tr9 (init 2)"
    by code_simp
  have 2: "''a'' \<in> set (executing (exec tr9 (init 2)))" "''b'' \<in> set (executing (exec tr9 (init 2)))"
    by code_simp+
  have 3: "to_error (Printable ''disk full'') = Some (ErrorObj ''disk full'')"
    by simp
  have 4: "map_option status (jobs (exec tr9 (init 2)) ''a'') = Some Pending"
    "map_option status (jobs (exec tr9 (init 2)) ''b'') = Some Aborted"
    "map_option promise (jobs (exec tr9 (init 2)) ''b'') = Some (Some (Rejected (ErrorObj ''abort'')))"
    "unhandled (exec tr9 (init 2)) = []"
    by code_simp+
  show ?thesis
    using executor_failure_rejects_outcome [OF 1 2(1) 3] executor_failure_rejects_outcome [OF 1 2(2) 3]
      1 2 3 4
    by (auto simp del: step.simps enabled.simps)
qed

text \<open>
  C9 fails when the executor's promise rejects with a value that \<^verbatim>\<open>String\<close> cannot
  convert.  With one job running, such a rejection makes \<^verbatim>\<open>reject\<close> throw before it
  changes anything: the job stays pending, its promise is not settled, no event is
  emitted, and the \<^verbatim>\<open>TypeError\<close> leaves the promise chain of \<^verbatim>\<open>executeJob\<close> with no
  handler.
\<close>

theorem unconvertible_rejection_escapes:
  "valid [Process ''a'' (0::nat) 0 False] (init 1 :: (nat, nat) queue_state) \<and>
   enabled (ExecutorSettles ''a'' (Rejected Unprintable))
     (exec [Process ''a'' (0::nat) 0 False] (init 1 :: (nat, nat) queue_state)) \<and>
   unhandled (exec [Process ''a'' (0::nat) 0 False, ExecutorSettles ''a'' (Rejected Unprintable)]
     (init 1 :: (nat, nat) queue_state)) = [type_error] \<and>
   map_option status (jobs (exec [Process ''a'' (0::nat) 0 False, ExecutorSettles ''a'' (Rejected Unprintable)]
     (init 1 :: (nat, nat) queue_state)) ''a'') = Some Pending \<and>
   map_option promise (jobs (exec [Process ''a'' (0::nat) 0 False, ExecutorSettles ''a'' (Rejected Unprintable)]
     (init 1 :: (nat, nat) queue_state)) ''a'') = Some None \<and>
   events (exec [Process ''a'' (0::nat) 0 False, ExecutorSettles ''a'' (Rejected Unprintable)]
     (init 1 :: (nat, nat) queue_state)) = [JobAdded ''a'' 0 1]"
  by code_simp

subsection \<open>Shutdown\<close>








subsection \<open>Settling once\<close>

text \<open>Events are only ever appended.\<close>

lemma events_jobAbort_abort_grow: "\<exists>es. events (jobAbort_abort jid s) = events s @ es"
  by (simp add: jobAbort_abort_def onTimeoutOrAbort_def Let_def split: option.splits)

lemma events_dispatch_queueAbort_grow: "\<exists>es. events (dispatch_queueAbort ls s) = events s @ es"
proof (induction ls arbitrary: s)
  case Nil
  then show ?case by simp
next
  case (Cons jid ls)
  let ?s = "if jid \<in> set (queueAbort s) then jobAbort_abort jid s else s"
  have "\<exists>es. events ?s = events s @ es"
    using events_jobAbort_abort_grow [of jid s] by simp
  then obtain es where "events ?s = events s @ es" ..
  moreover obtain es' where "events (dispatch_queueAbort ls ?s) = events ?s @ es'"
    using Cons.IH [of ?s] by auto
  ultimately show ?case
    unfolding dispatch_queueAbort_Cons by simp
qed

lemma events_step_grow: "\<exists>es. events (step a s) = events s @ es"
proof (cases a)
  case (Process jid d t sg)
  then show ?thesis
    by (simp add: events_process)
next
  case (AbortJob jid)
  then show ?thesis
    using events_jobAbort_abort_grow [of jid "s\<lparr>events := events s @ [AbortJobRequested jid]\<rparr>"]
    by (auto simp add: abortJob_def Let_def split: option.splits)
next
  case AbortQueue
  then show ?thesis
    using events_dispatch_queueAbort_grow [of "queueAbort s" s] by (simp add: abort_def)
next
  case (SignalAborts jid)
  then show ?thesis
    using events_jobAbort_abort_grow [of jid s] by (simp split: option.splits)
next
  case (TimerFires jid)
  then show ?thesis
    by (simp add: onTimeoutOrAbort_def Let_def split: option.splits)
next
  case (ExecutorSettles jid r)
  then show ?thesis
    by (auto simp add: executor_settled_def then_resolve_def catch_reject_def finally_resolve_def
        job_resolve_def job_reject_def Let_def split: settlement.splits option.splits sum.splits)
next
  case (ExecuteJobThen jid)
  then show ?thesis
    by (simp add: executeJob_then_def)
next
  case (WaitForJob jid t)
  then show ?thesis
    by (simp add: waitForJob_def)
next
  case (WaitTimerFires n)
  then show ?thesis
    by (simp add: wait_timed_out_def)
qed

lemma no_second_end:
  assumes "enabled a s" and "state_ok s" and "jobs s i = Some j" and "status j \<noteq> Pending"
  shows "filter (ends i) (events (step a s)) = filter (ends i) (events s)"
proof -
  have ok: "job_ok s i" and ok': "job_ok (step a s) i"
    using assms(1,2) state_ok_step [of a s] by (simp_all add: state_ok_def)
  have "jobs (step a s) i = Some j"
    using assms(1) ok assms(3,4) by (rule terminal_stable)
  then have "length (filter (ends i) (events (step a s))) = 1"
    using ok' assms(4) by (simp add: job_ok_def)
  moreover have "length (filter (ends i) (events s)) = 1"
    using ok assms(3,4) by (simp add: job_ok_def)
  moreover obtain es where "events (step a s) = events s @ es"
    using events_step_grow [of a s] by auto
  ultimately show ?thesis
    by simp
qed

lemma status_after_end:
  assumes "jobs s i = Some j" and "status j = Pending"
  shows "map_option status (jobs (onTimeoutOrAbort i s) i) = Some Aborted"
    and "map_option status (jobs (job_resolve i out s) i) = Some Processed"
    and "to_error err \<noteq> None \<Longrightarrow>
      \<exists>s'. job_reject i err s = Inr s' \<and> map_option status (jobs s' i) = Some Processed"
  using assms
  by (auto simp add: onTimeoutOrAbort_def job_resolve_def job_reject_def Let_def
      split: option.splits)

text \<open>
  X2.  Unless \<^verbatim>\<open>reject\<close> is given a value that \<^verbatim>\<open>String\<close> cannot convert, a job ends
  once.  While it is pending its promise is unsettled and no event has reported its end;
  each of the three callbacks that can end it (the \<^verbatim>\<open>resolve\<close> and the \<^verbatim>\<open>reject\<close> of the
  queue item, the latter with an \<^verbatim>\<open>Error\<close> or a value that \<^verbatim>\<open>String\<close> converts, and
  \<^verbatim>\<open>onTimeoutOrAbort\<close>) then returns and makes it terminal.  Once it is terminal its
  promise is settled, its listeners and its timer are released, it has left the job
  index and exactly one \<^verbatim>\<open>job-processed\<close> or \<^verbatim>\<open>job-cancelled\<close> event carries its id;
  each of the three callbacks, with any value, returns the state as it is, and no step
  of the host changes the closure of the job or emits another such event for it.
\<close>

theorem job_ends_exactly_once:
  fixes as :: "('i, 'o) action list" and k :: int
  defines "s \<equiv> exec as (init k)"
  assumes "valid as (init k)" and "jobs s i = Some j"
  shows "(status j = Pending \<longrightarrow>
       promise j = None \<and> filter (ends i) (events s) = [] \<and>
       map_option status (jobs (onTimeoutOrAbort i s) i) = Some Aborted \<and>
       map_option status (jobs (job_resolve i out s) i) = Some Processed \<and>
       (to_error err \<noteq> None \<longrightarrow>
          (\<exists>s'. job_reject i err s = Inr s' \<and> map_option status (jobs s' i) = Some Processed))) \<and>
    (status j \<noteq> Pending \<longrightarrow>
       promise j \<noteq> None \<and> \<not> on_abort_job j \<and> \<not> on_signal j \<and> \<not> timeout j \<and>
       i \<notin> set (queueAbort s) \<and> jobStatus s i = None \<and>
       length (filter (ends i) (events s)) = 1 \<and>
       onTimeoutOrAbort i s = s \<and> job_resolve i out s = s \<and> job_reject i err s = Inr s \<and>
       (\<forall>a. enabled a s \<longrightarrow>
          jobs (step a s) i = Some j \<and>
          filter (ends i) (events (step a s)) = filter (ends i) (events s)))"
proof -
  have ok: "state_ok s"
    unfolding s_def using assms(2) by (rule state_ok_exec)
  then have jok: "job_ok s i"
    by (simp add: state_ok_def)
  show ?thesis
  proof (cases "status j = Pending")
    case True
    then have "promise j = None" and "filter (ends i) (events s) = []"
      using jok assms(3) by (simp_all add: job_ok_def)
    then show ?thesis
      using True status_after_end [OF assms(3) True] by blast
  next
    case False
    then have "promise j \<noteq> None \<and> \<not> on_abort_job j \<and> \<not> on_signal j \<and> \<not> timeout j \<and>
       i \<notin> set (queueAbort s) \<and> jobStatus s i = None \<and>
       length (filter (ends i) (events s)) = 1"
      using jok assms(3) by (simp add: job_ok_def)
    moreover have "onTimeoutOrAbort i s = s" "job_resolve i out s = s" "job_reject i err s = Inr s"
      using assms(3) False
      by (simp_all add: onTimeoutOrAbort_noop job_resolve_noop job_reject_noop)
    moreover have "jobs (step a s) i = Some j \<and>
          filter (ends i) (events (step a s)) = filter (ends i) (events s)"
      if "enabled a s" for a
      using that ok jok assms(3) False by (simp add: terminal_stable no_second_end)
    ultimately show ?thesis
      using False by blast
  qed
qed

text \<open>
  Job \<open>a\<close> is submitted with a time-out and an external signal and starts; it is pending,
  and a rejection of its executor with \<open>late\<close> would end it.  It is then cancelled by
  its id while its executor runs; the executor resolves afterwards.
\<close>

definition tr2 :: "(nat, nat) action list" where
  "tr2 = [Process ''a'' 0 3 True, AbortJob ''a'']"

theorem job_ends_exactly_once_witness:
  "valid [Process ''a'' 0 3 True] (init 1 :: (nat, nat) queue_state) \<and>
   map_option status (jobs (exec [Process ''a'' 0 3 True] (init 1 :: (nat, nat) queue_state)) ''a'') =
     Some Pending \<and>
   to_error (Printable ''late'') \<noteq> None \<and>
   (\<exists>s'. job_reject ''a'' (Printable ''late'')
        (exec [Process ''a'' 0 3 True] (init 1 :: (nat, nat) queue_state)) = Inr s' \<and>
      map_option status (jobs s' ''a'') = Some Processed) \<and>
   valid tr2 (init 1) \<and>
   map_option status (jobs (exec tr2 (init 1)) ''a'') = Some Aborted \<and>
   map_option promise (jobs (exec tr2 (init 1)) ''a'') = Some (Some (Rejected (ErrorObj ''abort''))) \<and>
   length (filter (ends ''a'') (events (exec tr2 (init 1)))) = 1 \<and>
   onTimeoutOrAbort ''a'' (exec tr2 (init 1)) = exec tr2 (init 1) \<and>
   job_resolve ''a'' 1 (exec tr2 (init 1)) = exec tr2 (init 1) \<and>
   job_reject ''a'' (Printable ''late'') (exec tr2 (init 1)) = Inr (exec tr2 (init 1)) \<and>
   enabled (ExecutorSettles ''a'' (Fulfilled 1)) (exec tr2 (init 1)) \<and>
   jobs (step (ExecutorSettles ''a'' (Fulfilled 1)) (exec tr2 (init 1))) ''a'' =
     jobs (exec tr2 (init 1)) ''a'' \<and>
   filter (ends ''a'') (events (step (ExecutorSettles ''a'' (Fulfilled 1)) (exec tr2 (init 1)))) =
     filter (ends ''a'') (events (exec tr2 (init 1)))"
proof -
  let ?p = "[Process ''a'' 0 3 True] :: (nat, nat) action list"
  have 0: "valid ?p (init 1)"
    by code_simp
  have st0: "map_option status (jobs (exec ?p (init 1)) ''a'') = Some Pending"
    by code_simp
  then obtain j0 where p2: "jobs (exec ?p (init 1)) ''a'' = Some j0" and p3: "status j0 = Pending"
    by auto
  have conv: "to_error (Printable ''late'') \<noteq> None"
    by simp
  note first = job_ends_exactly_once [OF 0 p2, of 1 "Printable ''late''", THEN conjunct1,
    rule_format, OF p3, THEN conjunct2, THEN conjunct2, THEN conjunct2, THEN conjunct2,
    rule_format, OF conv]
  have 1: "valid tr2 (init 1)"
    by code_simp
  have st: "map_option status (jobs (exec tr2 (init 1)) ''a'') = Some Aborted"
    "map_option promise (jobs (exec tr2 (init 1)) ''a'') = Some (Some (Rejected (ErrorObj ''abort'')))"
    "enabled (ExecutorSettles ''a'' (Fulfilled 1)) (exec tr2 (init 1))"
    by code_simp+
  then obtain j where 2: "jobs (exec tr2 (init 1)) ''a'' = Some j" and 3: "status j = Aborted"
    by auto
  note once = job_ends_exactly_once [OF 1 2, of 1 "Printable ''late''", THEN conjunct2, rule_format]
  have "status j \<noteq> Pending"
    using 3 by simp
  then have "valid tr2 (init 1) \<and>
   map_option status (jobs (exec tr2 (init 1)) ''a'') = Some Aborted \<and>
   map_option promise (jobs (exec tr2 (init 1)) ''a'') = Some (Some (Rejected (ErrorObj ''abort''))) \<and>
   length (filter (ends ''a'') (events (exec tr2 (init 1)))) = 1 \<and>
   onTimeoutOrAbort ''a'' (exec tr2 (init 1)) = exec tr2 (init 1) \<and>
   job_resolve ''a'' 1 (exec tr2 (init 1)) = exec tr2 (init 1) \<and>
   job_reject ''a'' (Printable ''late'') (exec tr2 (init 1)) = Inr (exec tr2 (init 1)) \<and>
   enabled (ExecutorSettles ''a'' (Fulfilled 1)) (exec tr2 (init 1)) \<and>
   jobs (step (ExecutorSettles ''a'' (Fulfilled 1)) (exec tr2 (init 1))) ''a'' =
     jobs (exec tr2 (init 1)) ''a'' \<and>
   filter (ends ''a'') (events (step (ExecutorSettles ''a'' (Fulfilled 1)) (exec tr2 (init 1)))) =
     filter (ends ''a'') (events (exec tr2 (init 1)))"
    using once 1 2 3 st by (simp del: step.simps enabled.simps)
  then show ?thesis
    using 0 st0 conv first by blast
qed

definition tr2' :: "(nat, nat) action list" where
  "tr2' = [Process ''a'' 0 0 False, ExecutorSettles ''a'' (Rejected Unprintable)]"

text \<open>
  C2 fails when the executor's promise rejects with a value that \<^verbatim>\<open>String\<close> cannot
  convert.  With one job running, \<^verbatim>\<open>reject\<close> is the first callback to find the job
  pending, and it throws before it changes anything: after the promise chain of
  \<^verbatim>\<open>executeJob\<close> has run the job is still pending, its promise is unsettled, it is still
  tracked and no event reports its end.  A later \<^verbatim>\<open>abortJob\<close> for it is then no no-op:
  it cancels the job, rejects its promise with \<^verbatim>\<open>abort\<close> and emits \<^verbatim>\<open>job-cancelled\<close>.
\<close>

theorem cancellation_after_throwing_reject_takes_effect:
  "valid (tr2' @ [AbortJob ''a'']) (init 1) \<and>
   map_option status (jobs (exec [Process ''a'' 0 0 False] (init 1 :: (nat, nat) queue_state)) ''a'') =
     Some Pending \<and>
   (case job_reject ''a'' Unprintable (exec [Process ''a'' 0 0 False] (init 1 :: (nat, nat) queue_state))
    of Inl thrown \<Rightarrow> thrown = type_error | Inr s' \<Rightarrow> False) \<and>
   map_option status (jobs (exec tr2' (init 1)) ''a'') = Some Pending \<and>
   map_option promise (jobs (exec tr2' (init 1)) ''a'') = Some None \<and>
   jobStatus (exec tr2' (init 1)) ''a'' \<noteq> None \<and>
   filter (ends ''a'') (events (exec tr2' (init 1))) = [] \<and>
   map_option status (jobs (exec (tr2' @ [AbortJob ''a'']) (init 1)) ''a'') = Some Aborted \<and>
   map_option promise (jobs (exec (tr2' @ [AbortJob ''a'']) (init 1)) ''a'') =
     Some (Some (Rejected (ErrorObj ''abort''))) \<and>
   jobStatus (exec (tr2' @ [AbortJob ''a'']) (init 1)) ''a'' = None \<and>
   events (exec (tr2' @ [AbortJob ''a'']) (init 1)) =
     [JobAdded ''a'' 0 1, AbortJobRequested ''a'', JobCancelled ''a'' 0 ReasonAbort 0]"
  by code_simp

subsection \<open>Waiting for a job\<close>

text \<open>
  A callback of a job either leaves the job index and the calls of \<^verbatim>\<open>waitForJob\<close> as they
  are, or takes the job out of the index and runs the listeners of the calls.
\<close>

definition ended :: "job_id \<Rightarrow> ('i, 'o) queue_state \<Rightarrow> ('i, 'o) queue_state \<Rightarrow> bool" where
  "ended jid s s' \<longleftrightarrow>
     jobStatus s' = jobStatus s \<and> waiters s' = waiters s \<or>
     jobStatus s' = (jobStatus s)(jid := None) \<and> waiters s' = map (listener jid) (waiters s)"

lemma ended_onTimeoutOrAbort: "ended jid s (onTimeoutOrAbort jid s)"
  by (simp add: ended_def onTimeoutOrAbort_def Let_def split: option.splits)

lemma ended_timer:
  "ended jid s (onTimeoutOrAbort jid (upd_job jid f s))"
  using ended_onTimeoutOrAbort [of jid "upd_job jid f s"] by (simp add: ended_def)

lemma ended_jobAbort_abort: "ended jid s (jobAbort_abort jid s)"
  using ended_timer [of jid s] by (simp add: jobAbort_abort_def ended_def split: option.splits)

lemma ended_job_resolve: "ended jid s (job_resolve jid out s)"
  by (simp add: ended_def job_resolve_def Let_def split: option.splits)

lemma ended_job_reject: "job_reject jid err s = Inr s' \<Longrightarrow> ended jid s s'"
  by (auto simp add: ended_def job_reject_def Let_def split: option.splits if_splits)

lemma ended_executor_settled: "ended jid s (executor_settled jid r s)"
proof -
  have "ended jid s (job_resolve jid out s)" for out
    by (rule ended_job_resolve)
  moreover have "ended jid s s'" if "job_reject jid err s = Inr s'" for err s'
    using that by (rule ended_job_reject)
  ultimately show ?thesis
    by (auto simp add: executor_settled_def then_resolve_def catch_reject_def finally_resolve_def
        Let_def ended_def split: settlement.splits sum.splits)
qed

text \<open>
  What such callbacks do to the call numbered \<open>n\<close>: they leave it and the index entry of
  its job as they are, or its listener has run and its job has left the index.
\<close>

definition moved :: "nat \<Rightarrow> ('i, 'o) queue_state \<Rightarrow> ('i, 'o) queue_state \<Rightarrow> bool" where
  "moved n s s' \<longleftrightarrow>
     length (waiters s') = length (waiters s) \<and>
     (waiters s' ! n = waiters s ! n \<and>
        jobStatus s' (w_jobId (waiters s ! n)) = jobStatus s (w_jobId (waiters s ! n)) \<or>
      waiters s' ! n = listener (w_jobId (waiters s ! n)) (waiters s ! n) \<and>
        jobStatus s' (w_jobId (waiters s ! n)) = None)"

lemma moved_refl [simp]: "moved n s s"
  by (simp add: moved_def)

lemma listener_other: "jid \<noteq> w_jobId w \<Longrightarrow> listener jid w = w"
  by (simp add: listener_def)

lemma listener_twice [simp]:
  "w_jobId (listener jid w) = w_jobId w"
  "listener (w_jobId w) (listener (w_jobId w) w) = listener (w_jobId w) w"
  by (simp_all add: listener_def)

lemma ended_moved:
  assumes "ended jid s s'" and "n < length (waiters s)"
  shows "moved n s s'"
proof (cases "jid = w_jobId (waiters s ! n)")
  case True
  then show ?thesis
    using assms by (auto simp add: ended_def moved_def)
next
  case False
  then show ?thesis
    using assms by (auto simp add: ended_def moved_def listener_other)
qed

lemma moved_trans:
  assumes "moved n s s'" and "moved n s' s''"
  shows "moved n s s''"
proof -
  let ?w = "waiters s ! n"
  have len: "length (waiters s'') = length (waiters s)"
    using assms by (simp add: moved_def)
  consider
    (same) "waiters s' ! n = ?w" "jobStatus s' (w_jobId ?w) = jobStatus s (w_jobId ?w)"
    | (ran) "waiters s' ! n = listener (w_jobId ?w) ?w" "jobStatus s' (w_jobId ?w) = None"
    using assms(1) by (auto simp add: moved_def)
  then show ?thesis
  proof cases
    case same
    then show ?thesis
      using assms(2) len by (auto simp add: moved_def)
  next
    case ran
    then have "waiters s'' ! n = listener (w_jobId ?w) ?w \<and> jobStatus s'' (w_jobId ?w) = None"
      using assms(2) by (auto simp add: moved_def)
    then show ?thesis
      using len by (simp add: moved_def)
  qed
qed

lemma moved_dispatch_queueAbort:
  "n < length (waiters s) \<Longrightarrow> moved n s (dispatch_queueAbort ls s)"
proof (induction ls arbitrary: s)
  case Nil
  then show ?case by simp
next
  case (Cons jid ls)
  let ?s = "if jid \<in> set (queueAbort s) then jobAbort_abort jid s else s"
  have "ended jid s ?s"
    using ended_jobAbort_abort [of jid s] by (simp add: ended_def)
  then have first: "moved n s ?s"
    using Cons.prems by (rule ended_moved)
  then have "n < length (waiters ?s)"
    using Cons.prems by (simp add: moved_def)
  then have "moved n ?s (dispatch_queueAbort ls ?s)"
    by (rule Cons.IH)
  with first show ?case
    unfolding dispatch_queueAbort_Cons by (rule moved_trans)
qed

text \<open>
  What a step of the host does to the call numbered \<open>n\<close>, made for job \<open>x\<close>: nothing,
  and \<open>x\<close> stays in the index if it was there; or the listener of the call has run, \<open>x\<close>
  has left the index and no job was added; or the timer of the call has fired.
\<close>

lemma waiter_step:
  fixes s :: "('i, 'o) queue_state" and n :: nat
  defines "w \<equiv> waiters s ! n"
  assumes n: "n < length (waiters s)"
  shows "n < length (waiters (step a s)) \<and>
    (waiters (step a s) ! n = w \<and> a \<noteq> WaitTimerFires n \<and>
       (jobStatus s (w_jobId w) \<noteq> None \<longrightarrow> jobStatus (step a s) (w_jobId w) \<noteq> None) \<or>
     waiters (step a s) ! n = listener (w_jobId w) w \<and> a \<noteq> WaitTimerFires n \<and>
       jobStatus (step a s) (w_jobId w) = None \<and> dom (jobs (step a s)) = dom (jobs s) \<or>
     a = WaitTimerFires n \<and>
       waiters (step a s) ! n = w\<lparr>w_listening := False, w_timeout := False,
         w_promise := settle (Rejected (ErrorObj ''Timeout waiting for job'')) (w_promise w)\<rparr>)"
proof -
  have by_moved: ?thesis
    if m: "moved n s (step a s)" and d: "dom (jobs (step a s)) = dom (jobs s)"
      and a: "a \<noteq> WaitTimerFires n"
    using m d a n unfolding w_def moved_def by auto
  show ?thesis
  proof (cases a)
    case (Process jid d t sg)
    have "jobStatus (enqueue jid d t sg s) x \<noteq> None" if "jobStatus s x \<noteq> None" for x
      using that by (auto simp add: enqueue_def Let_def)
    then have "jobStatus (step a s) x \<noteq> None" if "jobStatus s x \<noteq> None" for x
      using that by (simp add: Process process_def jobStatus_run)
    moreover have "waiters (step a s) = waiters s"
      by (simp add: Process process_def enqueue_def Let_def)
    ultimately show ?thesis
      using n Process by (simp add: w_def)
  next
    case (AbortJob jid)
    let ?s = "s\<lparr>events := events s @ [AbortJobRequested jid]\<rparr>"
    have "ended jid s (abortJob jid s)"
      using ended_jobAbort_abort [of jid ?s]
      by (simp add: abortJob_def Let_def ended_def split: option.splits)
    then have "moved n s (step a s)"
      using n by (simp add: AbortJob ended_moved)
    moreover have "dom (jobs (step a s)) = dom (jobs s)"
      by (rule sched_fields) (simp add: AbortJob)
    ultimately show ?thesis
      using AbortJob by (intro by_moved) simp_all
  next
    case AbortQueue
    have "moved n s (dispatch_queueAbort (queueAbort s) s)"
      using n by (rule moved_dispatch_queueAbort)
    then have "moved n s (step a s)"
      by (simp add: AbortQueue abort_def moved_def)
    moreover have "dom (jobs (step a s)) = dom (jobs s)"
      by (rule sched_fields) (simp add: AbortQueue)
    ultimately show ?thesis
      using AbortQueue by (intro by_moved) simp_all
  next
    case (SignalAborts jid)
    have "ended jid s (step a s)"
      using ended_jobAbort_abort [of jid s] by (simp add: SignalAborts ended_def split: option.splits)
    then have "moved n s (step a s)"
      using n by (rule ended_moved)
    moreover have "dom (jobs (step a s)) = dom (jobs s)"
      by (rule sched_fields) (simp add: SignalAborts split: option.splits)
    ultimately show ?thesis
      using SignalAborts by (intro by_moved) simp_all
  next
    case (TimerFires jid)
    have "ended jid s (step a s)"
      by (simp add: TimerFires ended_timer)
    then have "moved n s (step a s)"
      using n by (rule ended_moved)
    moreover have "dom (jobs (step a s)) = dom (jobs s)"
      by (rule sched_fields) (simp add: TimerFires)
    ultimately show ?thesis
      using TimerFires by (intro by_moved) simp_all
  next
    case (ExecutorSettles jid r)
    have "ended jid s (step a s)"
      by (simp add: ExecutorSettles ended_executor_settled)
    then have "moved n s (step a s)"
      using n by (rule ended_moved)
    moreover have "dom (jobs (step a s)) = dom (jobs s)"
      using sched_executor_settled [of jid r s] by (auto simp add: ExecutorSettles sched_def)
    ultimately show ?thesis
      using ExecutorSettles by (intro by_moved) simp_all
  next
    case (ExecuteJobThen jid)
    have "jobStatus (step a s) x \<noteq> None" if "jobStatus s x \<noteq> None" for x
      using that by (simp add: ExecuteJobThen executeJob_then_def jobStatus_run)
    moreover have "waiters (step a s) = waiters s"
      by (simp add: ExecuteJobThen executeJob_then_def)
    ultimately show ?thesis
      using n ExecuteJobThen by (simp add: w_def)
  next
    case (WaitForJob jid t)
    then show ?thesis
      using n by (simp add: w_def waitForJob_def nth_append)
  next
    case (WaitTimerFires m)
    then show ?thesis
      using n by (cases "m = n") (simp_all add: w_def wait_timed_out_def)
  qed
qed

text \<open>A call that neither listens nor has a timer is left as it is.\<close>

lemma idle_call_step:
  assumes "enabled a s" and "n < length (waiters s)"
    and "\<not> w_listening (waiters s ! n)" and "\<not> w_timeout (waiters s ! n)"
  shows "n < length (waiters (step a s)) \<and> waiters (step a s) ! n = waiters s ! n"
proof -
  have "listener x (waiters s ! n) = waiters s ! n" for x
    using assms(3) by (simp add: listener_def)
  moreover have "a \<noteq> WaitTimerFires n"
    using assms(1,4) by auto
  ultimately show ?thesis
    using waiter_step [OF assms(2), of a] by auto
qed

lemma idle_call_exec:
  assumes "valid bs s" and "n < length (waiters s)"
    and "\<not> w_listening (waiters s ! n)" and "\<not> w_timeout (waiters s ! n)"
  shows "n < length (waiters (exec bs s)) \<and> waiters (exec bs s) ! n = waiters s ! n"
  using assms
proof (induction bs arbitrary: s)
  case Nil
  then show ?case by simp
next
  case (Cons a bs)
  then have "n < length (waiters (step a s)) \<and> waiters (step a s) ! n = waiters s ! n"
    by (intro idle_call_step) simp_all
  then show ?case
    using Cons.IH [of "step a s"] Cons.prems by simp
qed

text \<open>
  What holds between two callbacks of the call numbered \<open>n\<close>, made for job \<open>i\<close> while
  it was in the index, with a timer or not (\<open>deadline\<close>), whose timer has fired or not
  (\<open>fired\<close>): while its promise is unsettled it listens, its timer is set if it has one
  and the job is in the index; it is resolved only once the job has ended, and rejected
  only by its timer.
\<close>

definition waiting ::
  "nat \<Rightarrow> job_id \<Rightarrow> bool \<Rightarrow> bool \<Rightarrow> ('i, 'o) queue_state \<Rightarrow> bool" where
  "waiting n i deadline fired s \<longleftrightarrow>
     n < length (waiters s) \<and> w_jobId (waiters s ! n) = i \<and>
     (case w_promise (waiters s ! n) of
        None \<Rightarrow>
          w_listening (waiters s ! n) \<and> w_timeout (waiters s ! n) = deadline \<and>
          jobStatus s i \<noteq> None
      | Some (Fulfilled u) \<Rightarrow>
          \<not> w_listening (waiters s ! n) \<and> \<not> w_timeout (waiters s ! n) \<and>
          (\<exists>j. jobs s i = Some j \<and> status j \<noteq> Pending)
      | Some (Rejected e) \<Rightarrow>
          \<not> w_listening (waiters s ! n) \<and> \<not> w_timeout (waiters s ! n) \<and>
          deadline \<and> fired \<and> e = ErrorObj ''Timeout waiting for job'')"

lemma waiting_step:
  assumes en: "enabled a s" and ok: "state_ok s" and w: "waiting n i deadline fired s"
  shows "waiting n i deadline (fired \<or> a = WaitTimerFires n) (step a s)"
proof -
  let ?w = "waiters s ! n" and ?w' = "waiters (step a s) ! n"
  have n: "n < length (waiters s)" and i: "w_jobId ?w = i"
    using w by (simp_all add: waiting_def)
  note moves = waiter_step [OF n, of a, unfolded i]
  then have n': "n < length (waiters (step a s))"
    by simp
  have ok': "job_ok (step a s) i" and oki: "job_ok s i"
    using en ok state_ok_step [of a s] by (simp_all add: state_ok_def)
  show ?thesis
  proof (cases "w_promise ?w")
    case None
    then have l: "w_listening ?w" "w_timeout ?w = deadline" "jobStatus s i \<noteq> None"
      using w by (simp_all add: waiting_def)
    then obtain j where j: "jobs s i = Some j"
      using oki by (cases "jobs s i") (simp_all add: job_ok_def)
    consider
      (same) "?w' = ?w" "jobStatus (step a s) i \<noteq> None"
      | (ran) "?w' = listener i ?w" "jobStatus (step a s) i = None"
        "dom (jobs (step a s)) = dom (jobs s)"
      | (timer) "a = WaitTimerFires n"
        "?w' = ?w\<lparr>w_listening := False, w_timeout := False,
          w_promise := settle (Rejected (ErrorObj ''Timeout waiting for job'')) (w_promise ?w)\<rparr>"
      using moves l(3) by auto
    then show ?thesis
    proof cases
      case same
      then show ?thesis
        using n' i None l by (simp add: waiting_def)
    next
      case ran
      have "i \<in> dom (jobs (step a s))"
        using j ran(3) by auto
      then obtain j' where "jobs (step a s) i = Some j'"
        by auto
      moreover from this have "status j' \<noteq> Pending"
        using ok' ran(2) by (auto simp add: job_ok_def)
      ultimately show ?thesis
        using n' i None l ran(1) by (simp add: waiting_def listener_def)
    next
      case timer
      have "deadline"
        using en timer(1) l(2) by simp
      then show ?thesis
        using n' i None timer by (simp add: waiting_def)
    qed
  next
    case (Some r)
    then have idle: "\<not> w_listening ?w" "\<not> w_timeout ?w"
      using w by (auto simp add: waiting_def split: settlement.splits)
    have same: "?w' = ?w"
      using en n idle by (simp add: idle_call_step)
    show ?thesis
    proof (cases r)
      case (Fulfilled u)
      then obtain j where j: "jobs s i = Some j" "status j \<noteq> Pending"
        using w Some by (auto simp add: waiting_def)
      have "jobs (step a s) i = Some j"
        using en oki j by (rule terminal_stable)
      then show ?thesis
        using n' i Some Fulfilled idle same j(2) by (simp add: waiting_def)
    next
      case (Rejected e)
      then show ?thesis
        using w n' i Some idle same by (simp add: waiting_def)
    qed
  qed
qed

lemma waiting_exec:
  assumes "valid bs s" and "state_ok s" and "waiting n i deadline fired s"
  shows "waiting n i deadline (fired \<or> WaitTimerFires n \<in> set bs) (exec bs s)"
  using assms
proof (induction bs arbitrary: s fired)
  case Nil
  then show ?case by simp
next
  case (Cons a bs)
  have "waiting n i deadline (fired \<or> a = WaitTimerFires n) (step a s)"
    using Cons.prems by (intro waiting_step) simp_all
  moreover have "state_ok (step a s)"
    using Cons.prems by (intro state_ok_step) simp_all
  ultimately have "waiting n i deadline ((fired \<or> a = WaitTimerFires n) \<or> WaitTimerFires n \<in> set bs)
      (exec bs (step a s))"
    using Cons.prems(1) by (intro Cons.IH) simp_all
  moreover have "((fired \<or> a = WaitTimerFires n) \<or> WaitTimerFires n \<in> set bs) =
      (fired \<or> WaitTimerFires n \<in> set (a # bs))"
    by auto
  ultimately show ?case
    by simp
qed

text \<open>
  C8, as the code has it.  A call of \<^verbatim>\<open>waitForJob\<close> changes nothing of the queue but the
  list of calls.  With an id that is not in the job index, and that is not the name of a
  member of \<^verbatim>\<open>Object.prototype\<close>, it returns a resolved promise, sets no listener and
  no timer, and nothing that happens later changes that.  With an id that is in the
  index it registers its listener, leaves its promise unsettled and sets its timer if and
  only if \<open>timeoutMs > 0\<close>.  Then, whatever happens next: while the promise is unsettled
  the job is pending, the call listens and its timer, if it has one, is set and can fire;
  the promise is resolved only when the job has become \<^verbatim>\<open>processed\<close> or \<^verbatim>\<open>aborted\<close>; it
  is rejected only if \<open>timeoutMs > 0\<close> and the timer has fired, with the wait time-out
  error; a timer that fires rejects it; and once it is settled the call has neither
  listener nor timer and no step changes it, so the first of the two decides.
\<close>

theorem waitForJob_resolves_or_times_out:
  fixes as bs :: "('i, 'o) action list" and k :: int and i :: job_id and t :: rat
  defines "s \<equiv> exec as (init k)"
  defines "n \<equiv> length (waiters s)"
  defines "s1 \<equiv> step (WaitForJob i t) s"
  defines "s2 \<equiv> exec bs s1"
  defines "w \<equiv> waiters s2 ! n"
  assumes "valid as (init k)" and "valid bs s1"
  shows "s1\<lparr>waiters := waiters s\<rparr> = s \<and>
    (jobStatus s i = None \<and> i \<notin> set object_prototype_keys \<longrightarrow>
       w = \<lparr>w_jobId = i, w_listening = False, w_timeout = False,
            w_promise = Some (Fulfilled ())\<rparr>) \<and>
    (jobStatus s i \<noteq> None \<longrightarrow>
       waiters s1 ! n =
         \<lparr>w_jobId = i, w_listening = True, w_timeout = (0 < t), w_promise = None\<rparr> \<and>
       (w_promise w = None \<longrightarrow>
          w_listening w \<and> w_timeout w = (0 < t) \<and>
          map_option status (jobs s2 i) = Some Pending) \<and>
       (w_promise w = Some (Fulfilled ()) \<longrightarrow>
          map_option status (jobs s2 i) = Some Processed \<or>
          map_option status (jobs s2 i) = Some Aborted) \<and>
       (\<forall>e. w_promise w = Some (Rejected e) \<longrightarrow>
          e = ErrorObj ''Timeout waiting for job'' \<and> 0 < t \<and> WaitTimerFires n \<in> set bs) \<and>
       (w_promise w \<noteq> None \<longrightarrow>
          \<not> w_listening w \<and> \<not> w_timeout w \<and>
          (\<forall>a. enabled a s2 \<longrightarrow> waiters (step a s2) ! n = w)) \<and>
       enabled (WaitTimerFires n) s2 = (w_promise w = None \<and> 0 < t) \<and>
       (enabled (WaitTimerFires n) s2 \<longrightarrow>
          w_promise (waiters (step (WaitTimerFires n) s2) ! n) =
            Some (Rejected (ErrorObj ''Timeout waiting for job''))))"
proof -
  have ok: "state_ok s"
    unfolding s_def using assms(6) by (rule state_ok_exec)
  have ok1: "state_ok s1"
    unfolding s1_def using ok by (intro state_ok_step) simp_all
  have ok2: "state_ok s2"
    unfolding s2_def using state_ok_step ok1 assms(7) by (rule exec_invariant)
  have 1: "s1\<lparr>waiters := waiters s\<rparr> = s"
    by (simp add: s1_def waitForJob_def)
  have 2: "w = \<lparr>w_jobId = i, w_listening = False, w_timeout = False,
            w_promise = Some (Fulfilled ())\<rparr>"
    if "jobStatus s i = None \<and> i \<notin> set object_prototype_keys"
  proof -
    have "waiters s1 = waiters s @ [\<lparr>w_jobId = i, w_listening = False, w_timeout = False,
            w_promise = Some (Fulfilled ())\<rparr>]"
      using that by (simp add: s1_def waitForJob_def jobStatus_undefined_def)
    then have "n < length (waiters s1)"
      and "waiters s1 ! n = \<lparr>w_jobId = i, w_listening = False, w_timeout = False,
            w_promise = Some (Fulfilled ())\<rparr>"
      by (simp_all add: n_def)
    then show ?thesis
      using idle_call_exec [OF assms(7), of n] by (simp add: w_def s2_def)
  qed
  have 3: "waiters s1 ! n =
         \<lparr>w_jobId = i, w_listening = True, w_timeout = (0 < t), w_promise = None\<rparr> \<and>
       (w_promise w = None \<longrightarrow>
          w_listening w \<and> w_timeout w = (0 < t) \<and>
          map_option status (jobs s2 i) = Some Pending) \<and>
       (w_promise w = Some (Fulfilled ()) \<longrightarrow>
          map_option status (jobs s2 i) = Some Processed \<or>
          map_option status (jobs s2 i) = Some Aborted) \<and>
       (\<forall>e. w_promise w = Some (Rejected e) \<longrightarrow>
          e = ErrorObj ''Timeout waiting for job'' \<and> 0 < t \<and> WaitTimerFires n \<in> set bs) \<and>
       (w_promise w \<noteq> None \<longrightarrow>
          \<not> w_listening w \<and> \<not> w_timeout w \<and>
          (\<forall>a. enabled a s2 \<longrightarrow> waiters (step a s2) ! n = w)) \<and>
       enabled (WaitTimerFires n) s2 = (w_promise w = None \<and> 0 < t) \<and>
       (enabled (WaitTimerFires n) s2 \<longrightarrow>
          w_promise (waiters (step (WaitTimerFires n) s2) ! n) =
            Some (Rejected (ErrorObj ''Timeout waiting for job'')))"
    if tracked: "jobStatus s i \<noteq> None"
  proof -
    have ws1: "waiters s1 = waiters s @
        [\<lparr>w_jobId = i, w_listening = True, w_timeout = (0 < t), w_promise = None\<rparr>]"
      and js1: "jobStatus s1 = jobStatus s"
      using tracked by (simp_all add: s1_def waitForJob_def jobStatus_undefined_def)
    then have first: "waiters s1 ! n =
         \<lparr>w_jobId = i, w_listening = True, w_timeout = (0 < t), w_promise = None\<rparr>"
      and n1: "n < length (waiters s1)"
      by (simp_all add: n_def)
    then have "waiting n i (0 < t) False s1"
      using tracked js1 by (simp add: waiting_def)
    with assms(7) ok1 have "waiting n i (0 < t) (False \<or> WaitTimerFires n \<in> set bs) s2"
      unfolding s2_def by (rule waiting_exec)
    then have inv: "waiting n i (0 < t) (WaitTimerFires n \<in> set bs) s2"
      by simp
    then have n2: "n < length (waiters s2)"
      by (simp add: waiting_def)
    have oki: "job_ok s2 i"
      using ok2 by (simp add: state_ok_def)
    have a: "w_listening w \<and> w_timeout w = (0 < t) \<and> map_option status (jobs s2 i) = Some Pending"
      if none: "w_promise w = None"
    proof -
      have "w_listening w" "w_timeout w = (0 < t)" "jobStatus s2 i \<noteq> None"
        using inv none by (simp_all add: waiting_def w_def)
      moreover from this(3) have "map_option status (jobs s2 i) = Some Pending"
        using oki by (cases "jobs s2 i") (auto simp add: job_ok_def split: if_splits)
      ultimately show ?thesis
        by simp
    qed
    have b: "map_option status (jobs s2 i) = Some Processed \<or>
          map_option status (jobs s2 i) = Some Aborted"
      if res: "w_promise w = Some (Fulfilled ())"
    proof -
      obtain j where "jobs s2 i = Some j" "status j \<noteq> Pending"
        using inv res by (auto simp add: waiting_def w_def)
      then show ?thesis
        by (cases "status j") simp_all
    qed
    have c: "e = ErrorObj ''Timeout waiting for job'' \<and> 0 < t \<and> WaitTimerFires n \<in> set bs"
      if "w_promise w = Some (Rejected e)" for e
      using inv that by (simp add: waiting_def w_def)
    have idle: "\<not> w_listening w \<and> \<not> w_timeout w" if some: "w_promise w \<noteq> None"
    proof -
      obtain r where "w_promise w = Some r"
        using some by auto
      then show ?thesis
        using inv by (cases r) (simp_all add: waiting_def w_def)
    qed
    have d: "\<not> w_listening w \<and> \<not> w_timeout w \<and>
          (\<forall>a. enabled a s2 \<longrightarrow> waiters (step a s2) ! n = w)"
      if some: "w_promise w \<noteq> None"
      using idle [OF some] n2 idle_call_step [of _ s2 n] by (simp add: w_def)
    have e: "enabled (WaitTimerFires n) s2 = (w_promise w = None \<and> 0 < t)"
    proof (cases "w_promise w")
      case None
      then show ?thesis
        using a n2 by (simp add: w_def)
    next
      case (Some r)
      then have "\<not> w_timeout w"
        using idle by simp
      then show ?thesis
        using Some by (simp add: w_def)
    qed
    have f: "w_promise (waiters (step (WaitTimerFires n) s2) ! n) =
            Some (Rejected (ErrorObj ''Timeout waiting for job''))"
      if "enabled (WaitTimerFires n) s2"
    proof -
      have "w_promise w = None"
        using that e by simp
      then show ?thesis
        using n2 by (simp add: wait_timed_out_def w_def)
    qed
    show ?thesis
      using first a b c d e f by blast
  qed
  show ?thesis
    using 1 2 3 by blast
qed

text \<open>
  Job \<open>a\<close> is running.  A call for \<open>a\<close> with a time-out of 1000 ms has its timer set and
  its promise unsettled; it is resolved when the executor of \<open>a\<close> settles, and rejected
  when its timer fires before.  A call for the unknown id \<open>z\<close> is resolved at once and
  stays so.
\<close>

definition tr8 :: "(nat, nat) action list" where
  "tr8 = [Process ''a'' 0 0 False]"

theorem waitForJob_resolves_or_times_out_witness:
  "valid tr8 (init 1) \<and> waiters (exec tr8 (init 1)) = [] \<and>
   jobStatus (exec tr8 (init 1)) ''a'' \<noteq> None \<and>
   jobStatus (exec tr8 (init 1)) ''z'' = None \<and> ''z'' \<notin> set object_prototype_keys \<and>
   valid [ExecutorSettles ''a'' (Fulfilled 1)] (step (WaitForJob ''z'' 1000) (exec tr8 (init 1))) \<and>
   waiters (exec [ExecutorSettles ''a'' (Fulfilled 1)]
       (step (WaitForJob ''z'' 1000) (exec tr8 (init 1)))) ! 0 =
     \<lparr>w_jobId = ''z'', w_listening = False, w_timeout = False, w_promise = Some (Fulfilled ())\<rparr> \<and>
   waiters (step (WaitForJob ''a'' 1000) (exec tr8 (init 1))) ! 0 =
     \<lparr>w_jobId = ''a'', w_listening = True, w_timeout = True, w_promise = None\<rparr> \<and>
   map_option status (jobs (step (WaitForJob ''a'' 1000) (exec tr8 (init 1))) ''a'') =
     Some Pending \<and>
   enabled (WaitTimerFires 0) (step (WaitForJob ''a'' 1000) (exec tr8 (init 1))) \<and>
   w_promise (waiters (step (WaitTimerFires 0)
       (step (WaitForJob ''a'' 1000) (exec tr8 (init 1)))) ! 0) =
     Some (Rejected (ErrorObj ''Timeout waiting for job'')) \<and>
   valid [ExecutorSettles ''a'' (Fulfilled 1)] (step (WaitForJob ''a'' 1000) (exec tr8 (init 1))) \<and>
   w_promise (waiters (exec [ExecutorSettles ''a'' (Fulfilled 1)]
       (step (WaitForJob ''a'' 1000) (exec tr8 (init 1)))) ! 0) = Some (Fulfilled ()) \<and>
   map_option status (jobs (exec [ExecutorSettles ''a'' (Fulfilled 1)]
       (step (WaitForJob ''a'' 1000) (exec tr8 (init 1)))) ''a'') = Some Processed \<and>
   \<not> enabled (WaitTimerFires 0) (exec [ExecutorSettles ''a'' (Fulfilled 1)]
       (step (WaitForJob ''a'' 1000) (exec tr8 (init 1))))"
proof -
  let ?bs = "[ExecutorSettles ''a'' (Fulfilled 1)] :: (nat, nat) action list"
  have 1: "valid tr8 (init 1)"
    by code_simp
  have len: "waiters (exec tr8 (init 1)) = []"
    by code_simp
  have 2: "jobStatus (exec tr8 (init 1)) ''a'' \<noteq> None"
    "jobStatus (exec tr8 (init 1)) ''z'' = None \<and> ''z'' \<notin> set object_prototype_keys"
    by code_simp+
  have 3: "valid ?bs (step (WaitForJob ''z'' 1000) (exec tr8 (init 1)))"
    "valid ?bs (step (WaitForJob ''a'' 1000) (exec tr8 (init 1)))"
    "valid [] (step (WaitForJob ''a'' 1000) (exec tr8 (init 1)))"
    by code_simp+
  have 4: "w_promise (waiters (exec ?bs (step (WaitForJob ''a'' 1000) (exec tr8 (init 1)))) ! 0) =
      Some (Fulfilled ())"
    "map_option status (jobs (exec ?bs (step (WaitForJob ''a'' 1000) (exec tr8 (init 1)))) ''a'') =
      Some Processed"
    by code_simp+
  note unknown = waitForJob_resolves_or_times_out [OF 1 3(1), THEN conjunct2, THEN conjunct1,
    rule_format, OF 2(2)]
  note known = waitForJob_resolves_or_times_out [OF 1 3(3), THEN conjunct2, THEN conjunct2,
    rule_format, OF 2(1)]
  note later = waitForJob_resolves_or_times_out [OF 1 3(2), THEN conjunct2, THEN conjunct2,
    rule_format, OF 2(1)]
  show ?thesis
    using unknown known later 1 2 3 4 len by (simp del: step.simps enabled.simps)
qed

text \<open>
  C8 as the specification has it fails in two ways.  A call for the tracked job \<open>a\<close>
  with \<open>timeoutMs = 0\<close> sets no timer: its promise is unsettled and no time-out can end
  it.  A call for \<open>constructor\<close>, which is the id of no job and not in the job index,
  does not return at once: it registers its listener and its timer and its promise is
  unsettled, and when the timer fires it is rejected with the wait time-out error.
\<close>

theorem waitForJob_without_deadline_counterexample:
  "valid (tr8 @ [WaitForJob ''a'' 0, WaitForJob ''constructor'' 1000, WaitTimerFires 1]) (init 1) \<and>
   jobStatus (exec tr8 (init 1)) ''a'' \<noteq> None \<and>
   waiters (exec (tr8 @ [WaitForJob ''a'' 0]) (init 1)) =
     [\<lparr>w_jobId = ''a'', w_listening = True, w_timeout = False, w_promise = None\<rparr>] \<and>
   \<not> enabled (WaitTimerFires 0) (exec (tr8 @ [WaitForJob ''a'' 0]) (init 1)) \<and>
   jobStatus (exec (tr8 @ [WaitForJob ''a'' 0]) (init 1)) ''constructor'' = None \<and>
   jobs (exec (tr8 @ [WaitForJob ''a'' 0]) (init 1)) ''constructor'' = None \<and>
   waiters (exec (tr8 @ [WaitForJob ''a'' 0, WaitForJob ''constructor'' 1000]) (init 1)) ! 1 =
     \<lparr>w_jobId = ''constructor'', w_listening = True, w_timeout = True, w_promise = None\<rparr> \<and>
   w_promise (waiters (exec (tr8 @ [WaitForJob ''a'' 0, WaitForJob ''constructor'' 1000,
       WaitTimerFires 1]) (init 1)) ! 1) =
     Some (Rejected (ErrorObj ''Timeout waiting for job''))"
  by code_simp

end
